theory Spec2Isabelle
  imports Main "HOL-Library.Multiset"
begin

section \<open>JavaScript values\<close>

text \<open>
  The values a watcher computes and a reactive property stores. Only identity comparison
  (\<open>===\<close>, \<open>!==\<close>) and the \<open>isObject\<close> test are applied to them by the code
  under study, so finite numbers are represented by integers, \<open>NaN\<close> is a value of
  its own, and objects and arrays are references into a heap.
\<close>

datatype jsval = Undefined | Null | Bool bool | Num int | NaN | Str string | Obj nat

text \<open>\<open>a === b\<close>: \<open>NaN\<close> differs from itself, references compare by address.\<close>

fun strict_eq :: "jsval \<Rightarrow> jsval \<Rightarrow> bool" where
  "strict_eq NaN _ = False"
| "strict_eq _ NaN = False"
| "strict_eq a b = (a = b)"

text \<open>
  Modelled from the spec: \<open>isObject\<close> of \<open>shared/util\<close> is imported by the sources but
  not among them; the spec calls its positive case "an object/container". It holds of
  references only (\<open>null\<close> and primitives are excluded).
\<close>

fun isObject :: "jsval \<Rightarrow> bool" where
  "isObject (Obj _) = True"
| "isObject _ = False"

section \<open>Dependencies and watchers (dep.js, watcher.js)\<close>

text \<open>
  A \<open>Dep\<close> is identified by its \<open>id\<close> (\<open>uid++\<close> in the constructor) and a
  \<open>Watcher\<close> by its \<open>id\<close> (\<open>++uid\<close>); both counters only grow, so an id names one
  object. \<open>subs\<close> maps a dep to its subscriber array, \<open>watchers\<close> a watcher id to the
  watcher's fields. \<open>target\<close> is \<open>Dep.target\<close> (\<open>None\<close> for \<open>null\<close> and
  \<open>undefined\<close>, which the code does not tell apart), \<open>targetStack\<close> grows at its
  end like the JavaScript array. Three logs record calls into code that is outside this
  state: \<open>handled\<close> what was passed to \<open>handleError\<close>, \<open>cb_calls\<close> the
  invocations of watchers' callbacks as (watcher, new value, old value), and
  \<open>trace\<close> every call of \<open>depend()\<close> as (\<open>Dep.target\<close> at the call, dep).
\<close>

record watcher =
  deep :: bool
  user :: bool
  lazy :: bool
  sync :: bool
  dirty :: bool
  active :: bool
  deps :: "nat list"
  newDeps :: "nat list"
  depIds :: "nat set"
  newDepIds :: "nat set"
  wvalue :: jsval

record dstate =
  subs :: "nat \<Rightarrow> nat list"
  watchers :: "nat \<Rightarrow> watcher"
  target :: "nat option"
  targetStack :: "nat option list"
  handled :: "jsval list"
  cb_calls :: "(nat \<times> jsval \<times> jsval) list"
  trace :: "(nat option \<times> nat) list"

definition upd_watcher :: "nat \<Rightarrow> (watcher \<Rightarrow> watcher) \<Rightarrow> dstate \<Rightarrow> dstate" where
  "upd_watcher w f s = s\<lparr>watchers := (watchers s)(w := f (watchers s w))\<rparr>"

text \<open>\<open>Dep.addSub\<close>: \<open>this.subs.push(sub)\<close>.\<close>

definition addSub :: "nat \<Rightarrow> nat \<Rightarrow> dstate \<Rightarrow> dstate" where
  "addSub d w s = s\<lparr>subs := (subs s)(d := subs s d @ [w])\<rparr>"

text \<open>
  Modelled from the spec: \<open>remove\<close> of \<open>util/index\<close> is not among the sources; the
  spec's \<open>unsubscribe\<close> "removes unit from subscriber list (no-op if absent)". One
  occurrence (the first) is removed.
\<close>

definition removeSub :: "nat \<Rightarrow> nat \<Rightarrow> dstate \<Rightarrow> dstate" where
  "removeSub d w s = s\<lparr>subs := (subs s)(d := remove1 w (subs s d))\<rparr>"

text \<open>\<open>Watcher.addDep\<close>.\<close>

definition addDep :: "nat \<Rightarrow> nat \<Rightarrow> dstate \<Rightarrow> dstate" where
  "addDep w d s =
     (if d \<notin> newDepIds (watchers s w) then
        let s1 = upd_watcher w (\<lambda>r. r\<lparr>newDepIds := insert d (newDepIds r),
                                         newDeps := newDeps r @ [d]\<rparr>) s
        in if d \<notin> depIds (watchers s1 w) then addSub d w s1 else s1
      else s)"

text \<open>\<open>Dep.depend\<close>: only when a watcher is being evaluated.\<close>

definition depend :: "nat \<Rightarrow> dstate \<Rightarrow> dstate" where
  "depend d s =
     (let s1 = s\<lparr>trace := trace s @ [(target s, d)]\<rparr>
      in case target s1 of None \<Rightarrow> s1 | Some w \<Rightarrow> addDep w d s1)"

fun depend_all :: "nat list \<Rightarrow> dstate \<Rightarrow> dstate" where
  "depend_all [] s = s"
| "depend_all (d # ds) s = depend_all ds (depend d s)"

definition pushTarget :: "nat option \<Rightarrow> dstate \<Rightarrow> dstate" where
  "pushTarget t s = s\<lparr>targetStack := targetStack s @ [t], target := t\<rparr>"

text \<open>
  \<open>popTarget\<close>: \<open>pop()\<close> leaves an empty array empty, and reading index
  \<open>length - 1\<close> of an empty array gives \<open>undefined\<close>.
\<close>

definition popTarget :: "dstate \<Rightarrow> dstate" where
  "popTarget s =
     (let st = butlast (targetStack s)
      in s\<lparr>targetStack := st, target := (if st = [] then None else last st)\<rparr>)"

text \<open>
  The \<open>while (i--)\<close> loop of \<open>cleanupDeps\<close> over \<open>this.deps\<close>, from the last
  element to the first; the list argument is what is left to visit.
\<close>

fun cleanup_loop :: "nat \<Rightarrow> nat list \<Rightarrow> dstate \<Rightarrow> dstate" where
  "cleanup_loop w [] s = s"
| "cleanup_loop w (d # ds) s =
     cleanup_loop w ds (if d \<notin> newDepIds (watchers s w) then removeSub d w s else s)"

text \<open>
  \<open>Watcher.cleanupDeps\<close>. The two sets and the two arrays are swapped and the ones
  that end as \<open>newDepIds\<close> and \<open>newDeps\<close> are emptied.
\<close>

definition cleanupDeps :: "nat \<Rightarrow> dstate \<Rightarrow> dstate" where
  "cleanupDeps w s =
     (let s1 = cleanup_loop w (rev (deps (watchers s w))) s
      in upd_watcher w (\<lambda>r. r\<lparr>depIds := newDepIds r, newDepIds := {},
                                 deps := newDeps r, newDeps := []\<rparr>) s1)"

fun teardown_loop :: "nat \<Rightarrow> nat list \<Rightarrow> dstate \<Rightarrow> dstate" where
  "teardown_loop w [] s = s"
| "teardown_loop w (d # ds) s = teardown_loop w ds (removeSub d w s)"

text \<open>
  \<open>Watcher.teardown\<close>. The removal from the owning component's \<open>_watchers\<close> list
  acts on the component, which is outside this state.
\<close>

definition teardown :: "nat \<Rightarrow> dstate \<Rightarrow> dstate" where
  "teardown w s =
     (if active (watchers s w)
      then upd_watcher w (\<lambda>r. r\<lparr>active := False\<rparr>)
             (teardown_loop w (rev (deps (watchers s w))) s)
      else s)"

text \<open>Modelled from the spec: \<open>handleError\<close> of \<open>util/error\<close> reports the error.\<close>

definition handleError :: "jsval \<Rightarrow> dstate \<Rightarrow> dstate" where
  "handleError e s = s\<lparr>handled := handled s @ [e]\<rparr>"

subsection \<open>Evaluation\<close>

text \<open>
  The getter of a watcher is code of the caller. One run of it is described by what it
  does to this state, in order: it calls \<open>depend()\<close> of a dep (a reactive read),
  evaluates another watcher (\<open>Watcher.evaluate\<close>, as a computed property read
  during a render does; an exception it throws is the getter's to handle), or tears a
  watcher down; then it returns a value or throws. \<open>traverse\<close> (not among the
  sources) is described by the deps it touches for a given value.
\<close>

datatype outcome = Returns jsval | Throws jsval

datatype act = Depend nat | Eval nat script | Teardown nat
and script = Script "act list" outcome "jsval \<Rightarrow> nat list"

text \<open>
  \<open>Watcher.get\<close>. The result is \<open>Inl e\<close> when \<open>e\<close> is thrown to the caller and
  \<open>Inr v\<close> when \<open>v\<close> is returned; the \<open>finally\<close> block runs either way. The
  local \<open>value\<close> is still \<open>undefined\<close> when the getter threw.
\<close>

fun run_act :: "act \<Rightarrow> dstate \<Rightarrow> dstate"
and run_acts :: "act list \<Rightarrow> dstate \<Rightarrow> dstate"
and get :: "nat \<Rightarrow> script \<Rightarrow> dstate \<Rightarrow> (jsval + jsval) \<times> dstate" where
  "run_act (Depend d) s = depend d s"
| "run_act (Eval w sc) s =
     (case get w sc s of
        (Inl e, s1) \<Rightarrow> s1
      | (Inr v, s1) \<Rightarrow> upd_watcher w (\<lambda>r. r\<lparr>wvalue := v, dirty := False\<rparr>) s1)"
| "run_act (Teardown w) s = teardown w s"
| "run_acts [] s = s"
| "run_acts (a # as) s = run_acts as (run_act a s)"
| "get w (Script acts out trav) s =
     (let s1 = pushTarget (Some w) s;
          s2 = run_acts acts s1;
          (res, s3) = (case out of
                         Returns v \<Rightarrow> (Inr v, s2)
                       | Throws e \<Rightarrow> if user (watchers s2 w)
                                     then (Inr Undefined, handleError e s2)
                                     else (Inl e, s2));
          v = (case res of Inr v \<Rightarrow> v | Inl e \<Rightarrow> Undefined);
          s4 = (if deep (watchers s3 w) then depend_all (trav v) s3 else s3)
      in (res, cleanupDeps w (popTarget s4)))"

text \<open>
  \<open>Watcher.run\<close>. The callback is the caller's code: its invocation is recorded, and
  \<open>cb_throws\<close> says whether it throws. Modelled from the spec:
  \<open>invokeWithErrorHandling\<close> (not among the sources) reports the error of a user
  watcher's callback and does not propagate it.
\<close>

definition run :: "nat \<Rightarrow> script \<Rightarrow> jsval option \<Rightarrow> dstate \<Rightarrow> (jsval + unit) \<times> dstate" where
  "run w sc cb_throws s =
     (if active (watchers s w) then
        (case get w sc s of
           (Inl e, s1) \<Rightarrow> (Inl e, s1)
         | (Inr v, s1) \<Rightarrow>
             if \<not> strict_eq v (wvalue (watchers s1 w)) \<or> isObject v \<or> deep (watchers s1 w)
             then
               let oldValue = wvalue (watchers s1 w);
                   s2 = upd_watcher w (\<lambda>r. r\<lparr>wvalue := v\<rparr>) s1;
                   s3 = s2\<lparr>cb_calls := cb_calls s2 @ [(w, v, oldValue)]\<rparr>
               in (case cb_throws of
                     None \<Rightarrow> (Inr (), s3)
                   | Some e \<Rightarrow> if user (watchers s3 w)
                               then (Inr (), handleError e s3)
                               else (Inl e, s3))
             else (Inr (), s1))
      else (Inr (), s))"

text \<open>\<open>Watcher.evaluate\<close>, for lazy watchers.\<close>

definition evaluate :: "nat \<Rightarrow> script \<Rightarrow> dstate \<Rightarrow> (jsval + unit) \<times> dstate" where
  "evaluate w sc s =
     (case get w sc s of
        (Inl e, s1) \<Rightarrow> (Inl e, s1)
      | (Inr v, s1) \<Rightarrow> (Inr (), upd_watcher w (\<lambda>r. r\<lparr>wvalue := v, dirty := False\<rparr>) s1))"

subsection \<open>Invariants of the subscription graph\<close>

text \<open>
  What every state built by the operations above satisfies: no subscriber array holds a
  watcher twice, each id set is the set of ids of its array, and a watcher found in a
  dep's subscribers has that dep in its current or newly collected generation.
\<close>

definition subs_inv :: "dstate \<Rightarrow> bool" where
  "subs_inv s \<longleftrightarrow>
     (\<forall>d. distinct (subs s d)) \<and>
     (\<forall>w. depIds (watchers s w) = set (deps (watchers s w)) \<and>
          newDepIds (watchers s w) = set (newDeps (watchers s w))) \<and>
     (\<forall>w d. w \<in> set (subs s d) \<longrightarrow> d \<in> depIds (watchers s w) \<union> newDepIds (watchers s w))"

definition subscribed :: "nat \<Rightarrow> dstate \<Rightarrow> bool" where
  "subscribed w s \<longleftrightarrow>
     (\<forall>d. d \<in> depIds (watchers s w) \<union> newDepIds (watchers s w) \<longrightarrow> w \<in> set (subs s d))"

definition target_ok :: "dstate \<Rightarrow> bool" where
  "target_ok s \<longleftrightarrow> target s = (if targetStack s = [] then None else last (targetStack s))"

definition reads_of :: "nat \<Rightarrow> dstate \<Rightarrow> nat list" where
  "reads_of w s = map snd (filter (\<lambda>c. fst c = Some w) (trace s))"

definition pass_reads :: "nat \<Rightarrow> dstate \<Rightarrow> dstate \<Rightarrow> nat list" where
  "pass_reads w s s' = drop (length (reads_of w s)) (reads_of w s')"

fun touched :: "act list \<Rightarrow> nat list" where
  "touched [] = []"
| "touched (Depend d # as) = d # touched as"
| "touched (a # as) = touched as"

fun act_free :: "nat \<Rightarrow> act \<Rightarrow> bool"
and acts_free :: "nat \<Rightarrow> act list \<Rightarrow> bool"
and script_free :: "nat \<Rightarrow> script \<Rightarrow> bool" where
  "act_free w (Depend d) = True"
| "act_free w (Eval w' sc) = (w' \<noteq> w \<and> script_free w sc)"
| "act_free w (Teardown w') = (w' \<noteq> w)"
| "acts_free w [] = True"
| "acts_free w (a # as) = (act_free w a \<and> acts_free w as)"
| "script_free w (Script acts out trav) = acts_free w acts"

definition wview :: "nat \<Rightarrow> dstate \<Rightarrow> watcher \<times> (nat \<Rightarrow> bool) \<times> nat list" where
  "wview w s = (watchers s w, (\<lambda>d. w \<in> set (subs s d)), reads_of w s)"

fun pass_touched :: "bool \<Rightarrow> script \<Rightarrow> nat list" where
  "pass_touched dp (Script acts out trav) =
     touched acts @ (if dp then trav (case out of Returns v \<Rightarrow> v | Throws e \<Rightarrow> Undefined) else [])"

text \<open>
  A watcher as its constructor leaves it before the first \<open>get()\<close>, here with all
  options off, and a state in which nothing has been evaluated yet.
\<close>

definition fresh_watcher :: watcher where
  "fresh_watcher = \<lparr>deep = False, user = False, lazy = False, sync = False, dirty = False,
     active = True, deps = [], newDeps = [], depIds = {}, newDepIds = {}, wvalue = Undefined\<rparr>"

definition init_state :: dstate where
  "init_state = \<lparr>subs = (\<lambda>_. []), watchers = (\<lambda>_. fresh_watcher), target = None,
     targetStack = [], handled = [], cb_calls = [], trace = []\<rparr>"

text \<open>
  Where executions start: no dep has a subscriber and no watcher has collected a dep;
  the watchers' options are arbitrary.
\<close>

definition initial :: "dstate \<Rightarrow> bool" where
  "initial s \<longleftrightarrow>
     (\<forall>d. subs s d = []) \<and>
     (\<forall>w. deps (watchers s w) = [] \<and> newDeps (watchers s w) = [] \<and>
          depIds (watchers s w) = {} \<and> newDepIds (watchers s w) = {})"

text \<open>
  The states the methods of \<open>Dep\<close> and \<open>Watcher\<close> and the two stack
  functions lead to, in any order and number. \<open>addSub\<close> and \<open>removeSub\<close> are
  left to \<open>addDep\<close>, \<open>cleanupDeps\<close> and \<open>teardown\<close>, their only callers.
  The steps of \<open>get\<close> are themselves among the rules, so every state inside an
  evaluation is covered as well.
\<close>

inductive reachable :: "dstate \<Rightarrow> bool" where
  start: "initial s \<Longrightarrow> reachable s"
| r_pushTarget: "reachable s \<Longrightarrow> reachable (pushTarget t s)"
| r_popTarget: "reachable s \<Longrightarrow> reachable (popTarget s)"
| r_depend: "reachable s \<Longrightarrow> reachable (depend d s)"
| r_addDep: "reachable s \<Longrightarrow> reachable (addDep w d s)"
| r_cleanupDeps: "reachable s \<Longrightarrow> reachable (cleanupDeps w s)"
| r_teardown: "reachable s \<Longrightarrow> reachable (teardown w s)"
| r_get: "reachable s \<Longrightarrow> reachable (snd (get w sc s))"
| r_run: "reachable s \<Longrightarrow> reachable (snd (run w sc cb_throws s))"
| r_evaluate: "reachable s \<Longrightarrow> reachable (snd (evaluate w sc s))"

text \<open>Two passes of watcher 1; the second reads a computed watcher 2 in between.\<close>

definition pass1 :: script where
  "pass1 = Script [Depend 10, Depend 20, Depend 10] (Returns (Num 1)) (\<lambda>_. [])"

definition pass2 :: script where
  "pass2 = Script [Depend 20, Eval 2 (Script [Depend 10] (Returns (Num 5)) (\<lambda>_. [])), Depend 20]
             (Returns (Num 2)) (\<lambda>_. [])"

text \<open>
  A getter of watcher 1 that reads dep 10, evaluates watcher 1 itself (whose inner pass
  reads dep 20) and then reads dep 30; and one that reads dep 10 and tears watcher 1
  down.
\<close>

definition reentrant :: script where
  "reentrant = Script [Depend 10, Eval 1 (Script [Depend 20] (Returns (Num 5)) (\<lambda>_. [])), Depend 30]
                 (Returns (Num 1)) (\<lambda>_. [])"

definition unwatching :: script where
  "unwatching = Script [Depend 10, Teardown 1] (Returns (Num 1)) (\<lambda>_. [])"

text \<open>The options of a watcher, which no method assigns after construction.\<close>

definition wflags :: "watcher \<Rightarrow> bool \<times> bool \<times> bool \<times> bool" where
  "wflags r = (deep r, user r, lazy r, sync r)"

text \<open>
  A watcher whose expression evaluates to \<open>NaN\<close>, after its first run, and a user
  watcher with value 1 whose getter then throws.
\<close>

definition nan_script :: script where
  "nan_script = Script [Depend 10] (Returns NaN) (\<lambda>_. [])"

definition nan_state :: dstate where
  "nan_state = snd (run 1 nan_script None init_state)"

definition user_state :: dstate where
  "user_state = upd_watcher 1 (\<lambda>r. r\<lparr>user := True, wvalue := Num 1\<rparr>) init_state"

definition throwing :: script where
  "throwing = Script [Depend 10] (Throws (Str ''boom'')) (\<lambda>_. [])"

section \<open>Notification (dep.js)\<close>

text \<open>
  The two switches the code reads: \<open>production\<close> is
  \<open>process.env.NODE_ENV === 'production'\<close>, \<open>async\<close> is \<open>config.async\<close>.
\<close>

record config =
  production :: bool
  async :: bool

text \<open>
  \<open>Watcher.update\<close>, with \<open>run\<close> and \<open>queueWatcher\<close> (which need the watcher's
  getter and the scheduler) passed in. The first component of a result is the exception
  thrown, if any.
\<close>

definition update ::
  "(nat \<Rightarrow> dstate \<Rightarrow> jsval option \<times> dstate) \<Rightarrow> (nat \<Rightarrow> dstate \<Rightarrow> jsval option \<times> dstate)
     \<Rightarrow> nat \<Rightarrow> dstate \<Rightarrow> jsval option \<times> dstate" where
  "update runw queuew w s =
     (if lazy (watchers s w) then (None, upd_watcher w (\<lambda>r. r\<lparr>dirty := True\<rparr>) s)
      else if sync (watchers s w) then runw w s
      else queuew w s)"

text \<open>
  \<open>Dep.notify\<close>. \<open>subs\<close> is the copy made by \<open>this.subs.slice()\<close>, sorted by
  id in a development build that does not run async; the \<open>for\<close> loop walks the copy.
  \<open>upd\<close> is \<open>update()\<close> of the subscribers: any effect on the state, the
  subscriber arrays included. The result lists the watchers whose \<open>update()\<close> was
  invoked, the exception that ended the loop, if any, and the state.
\<close>

fun notify_loop ::
  "(nat \<Rightarrow> dstate \<Rightarrow> jsval option \<times> dstate) \<Rightarrow> nat list \<Rightarrow> dstate
     \<Rightarrow> nat list \<times> jsval option \<times> dstate" where
  "notify_loop upd [] s = ([], None, s)"
| "notify_loop upd (w # ws) s =
     (case upd w s of
        (Some e, s1) \<Rightarrow> ([w], Some e, s1)
      | (None, s1) \<Rightarrow> (case notify_loop upd ws s1 of (ws', r) \<Rightarrow> (w # ws', r)))"

definition notify ::
  "config \<Rightarrow> (nat \<Rightarrow> dstate \<Rightarrow> jsval option \<times> dstate) \<Rightarrow> nat \<Rightarrow> dstate
     \<Rightarrow> nat list \<times> jsval option \<times> dstate" where
  "notify cfg upd d s =
     (let subs0 = subs s d;
          subs1 = (if \<not> production cfg \<and> \<not> async cfg then sort subs0 else subs0)
      in notify_loop upd subs1 s)"

text \<open>
  A dep with subscribers 3 and 2, in that order; every \<open>update()\<close> unsubscribes
  watcher 2 and subscribes watcher 9.
\<close>

definition notify_state :: dstate where
  "notify_state = init_state\<lparr>subs := (\<lambda>_. [])(7 := [3, 2])\<rparr>"

definition meddling :: "nat \<Rightarrow> dstate \<Rightarrow> jsval option \<times> dstate" where
  "meddling w s = (None, addSub 7 9 (removeSub 7 2 s))"

text \<open>
  Two synchronous watchers subscribed to dep 7, in the order 3, 2; the getter of
  watcher 2 throws, and \<open>update()\<close> of a synchronous watcher is \<open>run()\<close>.
\<close>

definition sync_state :: dstate where
  "sync_state = init_state\<lparr>subs := (\<lambda>_. [])(7 := [3, 2]),
     watchers := (\<lambda>_. fresh_watcher\<lparr>sync := True\<rparr>)\<rparr>"

definition run_update :: "nat \<Rightarrow> dstate \<Rightarrow> jsval option \<times> dstate" where
  "run_update =
     update (\<lambda>w s. case run w (if w = 2 then throwing else pass1) None s of
                      (Inl e, s1) \<Rightarrow> (Some e, s1)
                    | (Inr u, s1) \<Rightarrow> (None, s1))
            (\<lambda>w s. (None, s))"

section \<open>Reactive properties (observer/index.js)\<close>

text \<open>
  Property keys: \<open>KIdx n\<close> stands for the keys \<open>isValidArrayIndex\<close> accepts (a
  non-negative integer, as a number or a numeric string), \<open>KStr\<close> for every other
  key. \<open>isValidArrayIndex\<close> itself is imported from \<open>util\<close> and not among the
  sources.
\<close>

datatype pkey = KStr string | KIdx nat

fun isValidArrayIndex :: "pkey \<Rightarrow> bool" where
  "isValidArrayIndex (KIdx n) = True"
| "isValidArrayIndex (KStr s) = False"

text \<open>
  An own property is a data property (value, configurable), an accessor property of the
  caller (has a getter, has a setter, the value its getter currently returns, what a
  call of its setter makes of that value, configurable), or a property converted by
  \<open>defineReactive\<close>. The latter is the closure of \<open>reactiveGetter\<close> and
  \<open>reactiveSetter\<close>: \<open>val\<close>, \<open>childOb\<close> (the address of the observed
  child, if any), the id of \<open>dep\<close>, \<open>shallow\<close>, whether a \<open>customSetter\<close> was
  given, and the descriptor the property had before, from which \<open>getter\<close> and
  \<open>setter\<close> are taken.
\<close>

datatype descriptor =
    Data jsval bool
  | Accessor bool bool jsval "jsval \<Rightarrow> jsval \<Rightarrow> jsval" bool
  | Reactive cell
and cell =
    Cell (cval: jsval) (childOb: "nat option") (cdep: nat) (shallow: bool)
      (customSetter: bool) (orig: "descriptor option")

datatype okind = PlainObject | ArrayObj | VNodeObj | OtherObj

record observer =
  odep :: nat
  vmCount :: nat

text \<open>
  A heap object: \<open>ob\<close> is its \<open>__ob__\<close>, \<open>elems\<close> the elements of an array,
  \<open>props\<close> its other own properties, and \<open>okeys\<close> what \<open>Object.keys\<close>
  returns for it: the names of its enumerable own properties, in order (\<open>__ob__\<close>
  is defined non-enumerable by \<open>def\<close> and never among them).
\<close>

record jsobj =
  kind :: okind
  extensible :: bool
  isVue :: bool
  ob :: "observer option"
  elems :: "jsval list"
  okeys :: "pkey list"
  props :: "pkey \<Rightarrow> descriptor option"

text \<open>
  \<open>dep_uid\<close> is the counter of \<open>new Dep()\<close>; \<open>notified\<close> lists the deps whose
  \<open>notify()\<close> was called, \<open>warns\<close> and \<open>customSetterCalls\<close> count the calls
  of \<open>warn\<close> and of custom setters.
\<close>

record ostate =
  heap :: "nat \<Rightarrow> jsobj"
  dep_uid :: nat
  shouldObserve :: bool
  serverRendering :: bool
  notified :: "nat list"
  warns :: nat
  customSetterCalls :: nat

datatype js_error = TypeError

fun prop_configurable :: "descriptor \<Rightarrow> bool" where
  "prop_configurable (Data v c) = c"
| "prop_configurable (Accessor g s b f c) = c"
| "prop_configurable (Reactive c) = True"

text \<open>\<open>property && property.get\<close> and \<open>property && property.set\<close>, as truth values.\<close>

fun has_getter :: "descriptor option \<Rightarrow> bool" where
  "has_getter None = False"
| "has_getter (Some (Data v c)) = False"
| "has_getter (Some (Accessor g s b f c)) = g"
| "has_getter (Some (Reactive c)) = True"

fun has_setter :: "descriptor option \<Rightarrow> bool" where
  "has_setter None = False"
| "has_setter (Some (Data v c)) = False"
| "has_setter (Some (Accessor g s b f c)) = s"
| "has_setter (Some (Reactive c)) = True"

text \<open>
  \<open>getter.call(obj)\<close>; for a converted property this is \<open>reactiveGetter\<close>, whose
  dependency collection belongs to the evaluation of watchers above.
\<close>

fun call_getter :: "descriptor \<Rightarrow> jsval"
and cell_value :: "cell \<Rightarrow> jsval" where
  "call_getter (Data v c) = v"
| "call_getter (Accessor g s b f c) = (if g then b else Undefined)"
| "call_getter (Reactive c) = cell_value c"
| "cell_value (Cell v co d sh cs None) = v"
| "cell_value (Cell v co d sh cs (Some p)) = (if has_getter (Some p) then call_getter p else v)"

text \<open>
  \<open>Object.defineProperty(obj, key, {enumerable: true, configurable: true, get, set})\<close>
  on a heap object: the property becomes the given closure and is enumerable. A key that
  \<open>Object.keys\<close> did not list before is listed last.
\<close>

definition define_property :: "pkey \<Rightarrow> cell \<Rightarrow> jsobj \<Rightarrow> jsobj" where
  "define_property key c obj =
     obj\<lparr>props := (props obj)(key := Some (Reactive c)),
         okeys := (if key \<in> set (okeys obj) then okeys obj else okeys obj @ [key])\<rparr>"

text \<open>
  \<open>observe\<close>, the constructor of \<open>Observer\<close> with its methods \<open>walk\<close> and
  \<open>observeArray\<close>, and \<open>defineReactive\<close>, which call each other: a converted
  property observes its value, and observing an object converts its properties.

  The first argument of each function bounds how deeply constructors of \<open>Observer\<close>
  may nest: each \<open>new Observer\<close> takes one unit, and the result is \<open>None\<close> when
  none is left.

  \<open>observe value asRootData\<close> returns the address of the observed object, if there
  is an observer. \<open>new_Observer\<close> takes a fresh dep, starts \<open>vmCount\<close> at 0 and
  attaches itself as \<open>__ob__\<close> before it converts anything; \<open>protoAugment\<close> and
  \<open>copyAugment\<close> give an observed array the patched methods of \<open>array.js\<close>,
  which \<open>splice1\<close> below accounts for. \<open>walk\<close> takes the keys that are left to
  convert, \<open>observeArray\<close> the index \<open>i\<close> and the number of iterations left
  (\<open>l - i\<close>).

  \<open>defineReactive(obj, key, val, customSetter, shallow)\<close> acts on the object at
  address \<open>a\<close>. \<open>val_arg\<close> is \<open>None\<close> for a call with two arguments. The dep
  is created before the descriptor is inspected. \<open>obj[key]\<close> is read from the own
  property (the prototype chain is not modelled).
\<close>

function observe :: "nat \<Rightarrow> jsval \<Rightarrow> bool \<Rightarrow> ostate \<Rightarrow> (nat option \<times> ostate) option"
and new_Observer :: "nat \<Rightarrow> nat \<Rightarrow> ostate \<Rightarrow> ostate option"
and walk :: "nat \<Rightarrow> nat \<Rightarrow> pkey list \<Rightarrow> ostate \<Rightarrow> ostate option"
and observeArray :: "nat \<Rightarrow> nat \<Rightarrow> nat \<Rightarrow> nat \<Rightarrow> ostate \<Rightarrow> ostate option"
and defineReactive ::
  "nat \<Rightarrow> nat \<Rightarrow> pkey \<Rightarrow> jsval option \<Rightarrow> bool \<Rightarrow> bool \<Rightarrow> ostate \<Rightarrow> ostate option"
where
  "observe n v asRootData st =
     (case v of
        Obj a \<Rightarrow>
          let obj = heap st a in
          if kind obj = VNodeObj then Some (None, st)
          else
            (case (if ob obj \<noteq> None then Some (Some a, st)
                   else if shouldObserve st \<and> \<not> serverRendering st \<and>
                           (kind obj = ArrayObj \<or> kind obj = PlainObject) \<and>
                           extensible obj \<and> \<not> isVue obj
                   then (case new_Observer n a st of
                           None \<Rightarrow> None
                         | Some st1 \<Rightarrow> Some (Some a, st1))
                   else Some (None, st)) of
               None \<Rightarrow> None
             | Some (r, st1) \<Rightarrow>
                 if asRootData \<and> r \<noteq> None
                 then Some (r, st1\<lparr>heap := (heap st1)(a := (heap st1 a)
                        \<lparr>ob := map_option (\<lambda>b. b\<lparr>vmCount := vmCount b + 1\<rparr>) (ob (heap st1 a))\<rparr>)\<rparr>)
                 else Some (r, st1))
      | _ \<Rightarrow> Some (None, st))"
| "new_Observer 0 a st = None"
| "new_Observer (Suc n) a st =
     (let d = dep_uid st;
          st1 = st\<lparr>dep_uid := d + 1,
                   heap := (heap st)(a := (heap st a)\<lparr>ob := Some \<lparr>odep = d, vmCount = 0\<rparr>\<rparr>)\<rparr>
      in if kind (heap st1 a) = ArrayObj
         then observeArray n a 0 (length (elems (heap st1 a))) st1
         else walk n a (okeys (heap st1 a)) st1)"
| "walk n a [] st = Some st"
| "walk n a (key # keys) st =
     (case defineReactive n a key None False False st of
        None \<Rightarrow> None
      | Some st1 \<Rightarrow> walk n a keys st1)"
| "observeArray n a i 0 st = Some st"
| "observeArray n a i (Suc k) st =
     (let item = (if i < length (elems (heap st a)) then elems (heap st a) ! i else Undefined)
      in case observe n item False st of
           None \<Rightarrow> None
         | Some (r, st1) \<Rightarrow> observeArray n a (Suc i) k st1)"
| "defineReactive n a key val_arg cs sh st =
     (let d = dep_uid st;
          st1 = st\<lparr>dep_uid := d + 1\<rparr>;
          property = props (heap st1 a) key
      in if (case property of Some p \<Rightarrow> \<not> prop_configurable p | None \<Rightarrow> False) then Some st1
         else
           let getter = has_getter property; setter = has_setter property;
               val = (case val_arg of
                        Some v \<Rightarrow> v
                      | None \<Rightarrow> if \<not> getter \<or> setter
                                then (case property of Some p \<Rightarrow> call_getter p | None \<Rightarrow> Undefined)
                                else Undefined)
           in case (if sh then Some (None, st1) else observe n val False st1) of
                None \<Rightarrow> None
              | Some (co, st2) \<Rightarrow>
                  Some (st2\<lparr>heap := (heap st2)
                          (a := define_property key (Cell val co d sh cs property) (heap st2 a))\<rparr>))"
  by pat_completeness auto

termination
  by (relation "measures
        [case_sum (case_sum (\<lambda>p. fst p) (\<lambda>p. fst p))
                  (case_sum (\<lambda>p. fst p) (case_sum (\<lambda>p. fst p) (\<lambda>p. fst p))),
         case_sum (case_sum (\<lambda>p. 2) (\<lambda>p. 1))
                  (case_sum (\<lambda>p. 4) (case_sum (\<lambda>p. 4) (\<lambda>p. 3))),
         case_sum (case_sum (\<lambda>p. 0) (\<lambda>p. 0))
                  (case_sum (\<lambda>p. length (fst (snd (snd p))))
                     (case_sum (\<lambda>p. fst (snd (snd (snd p)))) (\<lambda>p. 0)))]")
     auto

text \<open>
  \<open>reactiveSetter\<close> on the closure of one property, and \<open>setter.call(obj, newVal)\<close>
  on the descriptor it replaced. \<open>dev\<close> is \<open>process.env.NODE_ENV !== 'production'\<close>.
\<close>

fun call_setter ::
  "nat \<Rightarrow> bool \<Rightarrow> descriptor \<Rightarrow> jsval \<Rightarrow> ostate \<Rightarrow> (descriptor \<times> ostate) option"
and reactiveSetter ::
  "nat \<Rightarrow> bool \<Rightarrow> cell \<Rightarrow> jsval \<Rightarrow> ostate \<Rightarrow> (cell \<times> ostate) option" where
  "call_setter n dev (Data v c) newVal st = Some (Data v c, st)"
| "call_setter n dev (Accessor g s b f c) newVal st = Some (Accessor g s (f newVal b) f c, st)"
| "call_setter n dev (Reactive c) newVal st =
     (case reactiveSetter n dev c newVal st of
        None \<Rightarrow> None
      | Some (c', st') \<Rightarrow> Some (Reactive c', st'))"
| "reactiveSetter n dev (Cell v co d sh cs og) newVal st =
     (let getter = has_getter og; setter = has_setter og;
          value = cell_value (Cell v co d sh cs og)
      in if strict_eq newVal value \<or> (\<not> strict_eq newVal newVal \<and> \<not> strict_eq value value)
         then Some (Cell v co d sh cs og, st)
         else
           let st1 = (if dev \<and> cs then st\<lparr>customSetterCalls := customSetterCalls st + 1\<rparr> else st)
           in if getter \<and> \<not> setter then Some (Cell v co d sh cs og, st1)
              else
                (case (case og of
                         Some p \<Rightarrow>
                           if setter
                           then (case call_setter n dev p newVal st1 of
                                   None \<Rightarrow> None
                                 | Some (p', s') \<Rightarrow> Some (v, Some p', s'))
                           else Some (newVal, og, st1)
                       | None \<Rightarrow> Some (newVal, og, st1)) of
                   None \<Rightarrow> None
                 | Some (v', og', st2) \<Rightarrow>
                     (case (if sh then Some (None, st2) else observe n newVal False st2) of
                        None \<Rightarrow> None
                      | Some (co', st3) \<Rightarrow>
                          Some (Cell v' co' d sh cs og', st3\<lparr>notified := notified st3 @ [d]\<rparr>))))"


text \<open>
  \<open>hasOwn\<close> (\<open>Object.prototype.hasOwnProperty\<close>; imported from \<open>util\<close>, not among
  the sources) and the \<open>delete\<close> operator of strict-mode code, which throws a
  \<open>TypeError\<close> (\<open>None\<close> here) for a property that is not configurable.
  \<open>__ob__\<close> is defined configurable by \<open>def\<close>; an array's \<open>length\<close> is not
  configurable.
\<close>

fun hasOwn :: "jsobj \<Rightarrow> pkey \<Rightarrow> bool" where
  "hasOwn obj (KStr s) =
     (if s = ''__ob__'' then ob obj \<noteq> None
      else if kind obj = ArrayObj \<and> s = ''length'' then True
      else props obj (KStr s) \<noteq> None)"
| "hasOwn obj (KIdx i) =
     (if kind obj = ArrayObj then i < length (elems obj) else props obj (KIdx i) \<noteq> None)"

fun delete_key :: "jsobj \<Rightarrow> pkey \<Rightarrow> jsobj option" where
  "delete_key obj (KStr s) =
     (if s = ''__ob__'' then Some (obj\<lparr>ob := None\<rparr>)
      else if kind obj = ArrayObj \<and> s = ''length'' then None
      else (case props obj (KStr s) of
              None \<Rightarrow> Some obj
            | Some p \<Rightarrow> if prop_configurable p
                        then Some (obj\<lparr>props := (props obj)(KStr s := None),
                                       okeys := removeAll (KStr s) (okeys obj)\<rparr>)
                        else None))"
| "delete_key obj (KIdx i) =
     (if kind obj = ArrayObj
      then Some (if i < length (elems obj) then obj\<lparr>elems := (elems obj)[i := Undefined]\<rparr> else obj)
      else (case props obj (KIdx i) of
              None \<Rightarrow> Some obj
            | Some p \<Rightarrow> if prop_configurable p
                        then Some (obj\<lparr>props := (props obj)(KIdx i := None),
                                       okeys := removeAll (KIdx i) (okeys obj)\<rparr>)
                        else None))"

text \<open>
  \<open>isUndef\<close> and \<open>isPrimitive\<close> of \<open>shared/util\<close> (not among the sources):
  \<open>undefined\<close> or \<open>null\<close>; a string, number or boolean.
\<close>

fun isUndef :: "jsval \<Rightarrow> bool" where
  "isUndef Undefined = True"
| "isUndef Null = True"
| "isUndef _ = False"

fun isPrimitive :: "jsval \<Rightarrow> bool" where
  "isPrimitive (Bool b) = True"
| "isPrimitive (Num n) = True"
| "isPrimitive NaN = True"
| "isPrimitive (Str s) = True"
| "isPrimitive _ = False"

definition warn :: "ostate \<Rightarrow> ostate" where
  "warn st = st\<lparr>warns := warns st + 1\<rparr>"

text \<open>
  \<open>target.splice(key, 1)\<close> on the array at \<open>a\<close>. An observed array carries the
  patched methods of \<open>array.js\<close>: the original \<open>splice\<close> runs, nothing was
  inserted, and \<open>ob.dep.notify()\<close> is called whether or not an element was removed.
\<close>

definition splice1 :: "nat \<Rightarrow> nat \<Rightarrow> ostate \<Rightarrow> ostate" where
  "splice1 a i st =
     (let obj = heap st a;
          st1 = st\<lparr>heap := (heap st)(a := obj\<lparr>elems := take i (elems obj) @ drop (Suc i) (elems obj)\<rparr>)\<rparr>
      in case ob obj of
           None \<Rightarrow> st1
         | Some b \<Rightarrow> st1\<lparr>notified := notified st1 @ [odep b]\<rparr>)"

text \<open>
  \<open>del(target, key)\<close>. The first component of the result is the error thrown, if
  any: reading \<open>__ob__\<close> of \<open>undefined\<close> or \<open>null\<close> throws, and so does
  \<open>delete\<close> of a property that is not configurable (the characters and the length
  of a string among them).
\<close>

definition del :: "bool \<Rightarrow> jsval \<Rightarrow> pkey \<Rightarrow> ostate \<Rightarrow> js_error option \<times> ostate" where
  "del dev tgt key st =
     (let st0 = (if dev \<and> (isUndef tgt \<or> isPrimitive tgt) then warn st else st)
      in case tgt of
           Obj a \<Rightarrow>
             (let obj = heap st0 a in
              if kind obj = ArrayObj \<and> isValidArrayIndex key
              then (case key of KIdx i \<Rightarrow> (None, splice1 a i st0) | KStr s \<Rightarrow> (None, st0))
              else if isVue obj \<or> (case ob obj of Some b \<Rightarrow> vmCount b \<noteq> 0 | None \<Rightarrow> False)
              then (None, if dev then warn st0 else st0)
              else if \<not> hasOwn obj key then (None, st0)
              else (case delete_key obj key of
                      None \<Rightarrow> (Some TypeError, st0)
                    | Some obj' \<Rightarrow>
                        let st1 = st0\<lparr>heap := (heap st0)(a := obj')\<rparr>
                        in (case ob obj of
                              None \<Rightarrow> (None, st1)
                            | Some b \<Rightarrow> (None, st1\<lparr>notified := notified st1 @ [odep b]\<rparr>))))
         | Undefined \<Rightarrow> (Some TypeError, st0)
         | Null \<Rightarrow> (Some TypeError, st0)
         | Str s \<Rightarrow>
             if key = KStr ''length'' \<or> (case key of KIdx i \<Rightarrow> i < length s | KStr k \<Rightarrow> False)
             then (Some TypeError, st0) else (None, st0)
         | _ \<Rightarrow> (None, st0))"

text \<open>Whether a target is an array, and whether it has the key as an own property.\<close>

definition is_array :: "ostate \<Rightarrow> jsval \<Rightarrow> bool" where
  "is_array st tgt = (case tgt of Obj a \<Rightarrow> kind (heap st a) = ArrayObj | _ \<Rightarrow> False)"

definition own_property :: "ostate \<Rightarrow> jsval \<Rightarrow> pkey \<Rightarrow> bool" where
  "own_property st tgt key =
     (case tgt of
        Obj a \<Rightarrow> hasOwn (heap st a) key
      | Str s \<Rightarrow> key = KStr ''length'' \<or> (case key of KIdx i \<Rightarrow> i < length s | KStr k \<Rightarrow> False)
      | _ \<Rightarrow> False)"

text \<open>
  The values \<open>observe\<close> gives an observer: objects that have one already, and plain
  objects and arrays that are extensible and not a Vue instance, while observation is
  switched on and this is not a server rendering; never a VNode.
\<close>

definition observable :: "ostate \<Rightarrow> jsval \<Rightarrow> bool" where
  "observable st v =
     (case v of
        Obj b \<Rightarrow>
          kind (heap st b) \<noteq> VNodeObj \<and>
          (ob (heap st b) \<noteq> None \<or>
           (shouldObserve st \<and> \<not> serverRendering st \<and>
            (kind (heap st b) = ArrayObj \<or> kind (heap st b) = PlainObject) \<and>
            extensible (heap st b) \<and> \<not> isVue (heap st b)))
      | _ \<Rightarrow> False)"

text \<open>
  The addresses of the objects that have no observer and could be given one. Each
  \<open>new Observer\<close> removes one of them, so their number bounds the nesting of
  constructors.
\<close>

definition unobserved :: "ostate \<Rightarrow> nat set" where
  "unobserved st =
     {a. ob (heap st a) = None \<and>
         (kind (heap st a) = ArrayObj \<or> kind (heap st a) = PlainObject) \<and>
         extensible (heap st a) \<and> \<not> isVue (heap st a)}"

text \<open>
  An address that holds nothing \<open>observe\<close> would touch, an empty plain object, the
  plain object \<open>{x: 7}\<close>, and a state whose heap holds the last two at addresses 0
  and 1; then that state after the object at address 0 was observed and given the
  reactive property \<open>a = 1\<close>.
\<close>

definition unused :: jsobj where
  "unused = \<lparr>kind = OtherObj, extensible = False, isVue = False, ob = None, elems = [],
     okeys = [], props = (\<lambda>_. None)\<rparr>"

definition plain :: jsobj where
  "plain = \<lparr>kind = PlainObject, extensible = True, isVue = False, ob = None, elems = [],
     okeys = [], props = (\<lambda>_. None)\<rparr>"

definition plain_x :: jsobj where
  "plain_x = plain\<lparr>okeys := [KStr ''x''], props := (\<lambda>_. None)(KStr ''x'' := Some (Data (Num 7) True))\<rparr>"

definition ostate0 :: ostate where
  "ostate0 = \<lparr>heap = (\<lambda>_. unused)(0 := plain, 1 := plain_x), dep_uid = 0, shouldObserve = True,
     serverRendering = False, notified = [], warns = 0, customSetterCalls = 0\<rparr>"

definition obs_state :: ostate where
  "obs_state = ostate0\<lparr>heap := (\<lambda>_. unused)
       (0 := plain\<lparr>ob := Some \<lparr>odep = 0, vmCount = 0\<rparr>, okeys := [KStr ''a''],
              props := (\<lambda>_. None)(KStr ''a'' := Some (Reactive (Cell (Num 1) None 1 False False None)))\<rparr>,
        1 := plain_x),
     dep_uid := 2\<rparr>"

text \<open>
  An accessor property with a getter (returning 1) and no setter, the state in which
  the object at address 0 has it as property \<open>a\<close>, and that state after
  \<open>defineReactive\<close> converted the property.
\<close>

definition getter_only :: descriptor where
  "getter_only = Accessor True False (Num 1) (\<lambda>n b. n) True"

definition acc_pre :: ostate where
  "acc_pre = ostate0\<lparr>heap := (\<lambda>_. unused)
       (0 := plain\<lparr>okeys := [KStr ''a''], props := (\<lambda>_. None)(KStr ''a'' := Some getter_only)\<rparr>,
        1 := plain_x)\<rparr>"

definition acc_state :: ostate where
  "acc_state = ostate0\<lparr>heap := (\<lambda>_. unused)
       (0 := plain\<lparr>okeys := [KStr ''a''],
              props := (\<lambda>_. None)
                (KStr ''a'' := Some (Reactive (Cell Undefined None 0 False False (Some getter_only))))\<rparr>,
        1 := plain_x),
     dep_uid := 1\<rparr>"

text \<open>
  What \<open>observe\<close> and \<open>defineReactive\<close> leave as it is: the notifications and the
  counters of calls, the two switches, every object's kind, extensibility and elements,
  and the presence of an observer once there is one; the dep counter does not decrease.
\<close>

definition grows :: "ostate \<Rightarrow> ostate \<Rightarrow> bool" where
  "grows st st' \<longleftrightarrow>
     notified st' = notified st \<and> customSetterCalls st' = customSetterCalls st \<and>
     warns st' = warns st \<and> shouldObserve st' = shouldObserve st \<and>
     serverRendering st' = serverRendering st \<and> dep_uid st \<le> dep_uid st' \<and>
     (\<forall>a. kind (heap st' a) = kind (heap st a) \<and>
          extensible (heap st' a) = extensible (heap st a) \<and>
          isVue (heap st' a) = isVue (heap st a) \<and>
          elems (heap st' a) = elems (heap st a) \<and>
          (ob (heap st a) \<noteq> None \<longrightarrow> ob (heap st' a) \<noteq> None))"

text \<open>
  What \<open>new Observer\<close> makes of the object at an address: it has an observer; every
  element of an array that \<open>observe\<close> accepts has an observer too; every enumerable
  own property of another object is a converted one, unless it is not configurable.
\<close>

definition wrapped :: "ostate \<Rightarrow> nat \<Rightarrow> bool" where
  "wrapped st b \<longleftrightarrow>
     ob (heap st b) \<noteq> None \<and>
     (if kind (heap st b) = ArrayObj
      then \<forall>e \<in> set (elems (heap st b)).
             observable st e \<longrightarrow> (\<exists>a. e = Obj a \<and> ob (heap st a) \<noteq> None)
      else \<forall>k \<in> set (okeys (heap st b)).
             (\<exists>c. props (heap st b) k = Some (Reactive c)) \<or>
             (\<exists>p. props (heap st b) k = Some p \<and> \<not> prop_configurable p))"

section \<open>The scheduler (scheduler.js)\<close>

definition MAX_UPDATE_COUNT :: nat where
  "MAX_UPDATE_COUNT = 100"

text \<open>
  The module's variables. A watcher is named by its id, as in \<open>has\<close> and
  \<open>circular\<close>; \<open>has w\<close> is \<open>has[id] != null\<close>, \<open>circular w\<close> is
  \<open>circular[id] || 0\<close>. Four logs record calls out of the module: \<open>runs\<close> the
  watchers whose \<open>run()\<close> was called, \<open>befores\<close> those whose \<open>before()\<close> was,
  \<open>warned\<close> those reported by \<open>warn\<close>, \<open>ticks\<close> the number of
  \<open>nextTick(flushSchedulerQueue)\<close> calls, and \<open>activated_hooks\<close> and
  \<open>updated_hooks\<close> the arguments of \<open>callActivatedHooks\<close> and
  \<open>callUpdatedHooks\<close>.
\<close>

record sched =
  queue :: "nat list"
  activatedChildren :: "nat list"
  has :: "nat \<Rightarrow> bool"
  circular :: "nat \<Rightarrow> nat"
  waiting :: bool
  flushing :: bool
  index :: nat
  runs :: "nat list"
  befores :: "nat list"
  warned :: "nat list"
  ticks :: nat
  activated_hooks :: "nat list list"
  updated_hooks :: "nat list list"

text \<open>
  What a watcher's \<open>run()\<close> does to the scheduler: it calls \<open>queueWatcher\<close> for
  some watchers, in order, and then returns or throws. \<open>beh k\<close> describes the
  \<open>k\<close>-th \<open>run()\<close> the scheduler performs; \<open>bf w\<close> says whether watcher
  \<open>w\<close> has a \<open>before\<close> hook.
\<close>

type_synonym effect = "nat list \<times> jsval option"

definition resetSchedulerState :: "config \<Rightarrow> sched \<Rightarrow> sched" where
  "resetSchedulerState cfg st =
     st\<lparr>index := 0, queue := [], activatedChildren := [], has := (\<lambda>_. False),
        circular := (if \<not> production cfg then (\<lambda>_. 0) else circular st),
        waiting := False, flushing := False\<rparr>"

text \<open>
  The \<open>while\<close> loop of \<open>queueWatcher\<close>. The argument is \<open>i + 1\<close>, so that
  the value \<open>-1\<close> of \<open>i\<close> for an empty queue is the argument \<open>0\<close>; the
  result is the position \<open>i + 1\<close> passed to \<open>splice\<close>.
\<close>

fun scan :: "nat list \<Rightarrow> nat \<Rightarrow> nat \<Rightarrow> nat \<Rightarrow> nat" where
  "scan q idx wid 0 = 0"
| "scan q idx wid (Suc i) = (if i > idx \<and> q ! i > wid then scan q idx wid i else Suc i)"

text \<open>The queue after \<open>queue.push(watcher)\<close> or the \<open>splice\<close>.\<close>

definition enqueue :: "nat \<Rightarrow> sched \<Rightarrow> nat list" where
  "enqueue w st =
     (if \<not> flushing st then queue st @ [w]
      else let p = scan (queue st) (index st) w (length (queue st))
           in take p (queue st) @ [w] @ drop p (queue st))"

text \<open>
  \<open>queueWatcher\<close> and \<open>flushSchedulerQueue\<close> call each other: a development
  build that does not run async flushes inside \<open>queueWatcher\<close>, and the flush runs
  watchers, which call \<open>queueWatcher\<close>. Since a run can enqueue watchers without end,
  the functions take fuel, one unit per iteration of the flush loop; \<open>None\<close> means
  that the fuel did not suffice. A result is the exception thrown, if any, and the
  state.
\<close>

function queueWatcher ::
  "nat \<Rightarrow> config \<Rightarrow> (nat \<Rightarrow> bool) \<Rightarrow> (nat \<Rightarrow> effect) \<Rightarrow> nat \<Rightarrow> sched \<Rightarrow> (jsval option \<times> sched) option"
and run_effect ::
  "nat \<Rightarrow> config \<Rightarrow> (nat \<Rightarrow> bool) \<Rightarrow> (nat \<Rightarrow> effect) \<Rightarrow> nat list \<Rightarrow> sched \<Rightarrow> (jsval option \<times> sched) option"
and flush_loop ::
  "nat \<Rightarrow> config \<Rightarrow> (nat \<Rightarrow> bool) \<Rightarrow> (nat \<Rightarrow> effect) \<Rightarrow> sched \<Rightarrow> (jsval option \<times> sched) option"
and flushSchedulerQueue ::
  "nat \<Rightarrow> config \<Rightarrow> (nat \<Rightarrow> bool) \<Rightarrow> (nat \<Rightarrow> effect) \<Rightarrow> sched \<Rightarrow> (jsval option \<times> sched) option"
where
  "queueWatcher n cfg bf beh w st =
     (if \<not> has st w then
        let st1 = st\<lparr>has := (has st)(w := True)\<rparr>;
            st2 = st1\<lparr>queue := enqueue w st1\<rparr>
        in if \<not> waiting st2 then
             let st3 = st2\<lparr>waiting := True\<rparr>
             in if \<not> production cfg \<and> \<not> async cfg
                then flushSchedulerQueue n cfg bf beh st3
                else Some (None, st3\<lparr>ticks := ticks st3 + 1\<rparr>)
           else Some (None, st2)
      else Some (None, st))"
| "run_effect n cfg bf beh [] st = Some (None, st)"
| "run_effect n cfg bf beh (w # ws) st =
     (case queueWatcher n cfg bf beh w st of
        None \<Rightarrow> None
      | Some (Some e, st1) \<Rightarrow> Some (Some e, st1)
      | Some (None, st1) \<Rightarrow> run_effect n cfg bf beh ws st1)"
| "flush_loop 0 cfg bf beh st = None"
| "flush_loop (Suc n) cfg bf beh st =
     (if index st < length (queue st) then
        let w = queue st ! index st;
            st1 = (if bf w then st\<lparr>befores := befores st @ [w]\<rparr> else st);
            st2 = st1\<lparr>has := (has st1)(w := False)\<rparr>;
            (enq, thrown) = beh (length (runs st2));
            st3 = st2\<lparr>runs := runs st2 @ [w]\<rparr>
        in case run_effect n cfg bf beh enq st3 of
             None \<Rightarrow> None
           | Some (Some e, st4) \<Rightarrow> Some (Some e, st4)
           | Some (None, st4) \<Rightarrow>
               (case thrown of
                  Some e \<Rightarrow> Some (Some e, st4)
                | None \<Rightarrow>
                    if \<not> production cfg \<and> has st4 w then
                      let st5 = st4\<lparr>circular := (circular st4)(w := circular st4 w + 1)\<rparr>
                      in if circular st5 w > MAX_UPDATE_COUNT
                         then Some (None, st5\<lparr>warned := warned st5 @ [w]\<rparr>)
                         else flush_loop n cfg bf beh (st5\<lparr>index := index st5 + 1\<rparr>)
                    else flush_loop n cfg bf beh (st4\<lparr>index := index st4 + 1\<rparr>))
      else Some (None, st))"
| "flushSchedulerQueue n cfg bf beh st =
     (let st1 = st\<lparr>flushing := True, queue := sort (queue st)\<rparr>
      in case flush_loop n cfg bf beh (st1\<lparr>index := 0\<rparr>) of
           None \<Rightarrow> None
         | Some (Some e, st2) \<Rightarrow> Some (Some e, st2)
         | Some (None, st2) \<Rightarrow>
             let activatedQueue = activatedChildren st2;
                 updatedQueue = queue st2;
                 st3 = resetSchedulerState cfg st2
             in Some (None, st3\<lparr>activated_hooks := activated_hooks st3 @ [activatedQueue],
                               updated_hooks := updated_hooks st3 @ [updatedQueue]\<rparr>))"
  by pat_completeness auto

termination
  by (relation "measures
        [case_sum (case_sum (\<lambda>p. fst p) (\<lambda>p. fst p)) (case_sum (\<lambda>p. fst p) (\<lambda>p. fst p)),
         case_sum (case_sum (\<lambda>p. 2) (\<lambda>p. 3)) (case_sum (\<lambda>p. 0) (\<lambda>p. 1)),
         case_sum (case_sum (\<lambda>p. 0) (\<lambda>p. length (fst (snd (snd (snd (snd p)))))))
                  (case_sum (\<lambda>p. 0) (\<lambda>p. 0))]")
     auto

text \<open>
  The effect of the \<open>queueWatcher\<close> calls of one \<open>run()\<close> while a flush is
  already requested (\<open>waiting\<close>): each watcher that is not pending is marked and
  put into the queue.
\<close>

fun enq_all :: "nat list \<Rightarrow> sched \<Rightarrow> sched" where
  "enq_all [] st = st"
| "enq_all (w # ws) st =
     enq_all ws (if has st w then st
                 else st\<lparr>has := (has st)(w := True), queue := enqueue w st\<rparr>)"

text \<open>
  The first half of an iteration of the flush loop, up to the call of \<open>run()\<close>: the
  \<open>before\<close> hook, \<open>has[id] = null\<close>, and the record of the run.
\<close>

definition begin_run :: "(nat \<Rightarrow> bool) \<Rightarrow> sched \<Rightarrow> sched" where
  "begin_run bf st =
     (let w = queue st ! index st;
          st1 = (if bf w then st\<lparr>befores := befores st @ [w]\<rparr> else st);
          st2 = st1\<lparr>has := (has st1)(w := False)\<rparr>
      in st2\<lparr>runs := runs st2 @ [w]\<rparr>)"

text \<open>The scheduler before anything was queued.\<close>

definition sched0 :: sched where
  "sched0 = \<lparr>queue = [], activatedChildren = [], has = (\<lambda>_. False), circular = (\<lambda>_. 0),
     waiting = False, flushing = False, index = 0, runs = [], befores = [], warned = [],
     ticks = 0, activated_hooks = [], updated_hooks = []\<rparr>"

text \<open>
  Watchers 1, 5 and 7 are queued and a flush was requested; the second run of the flush
  (that of watcher 5) enqueues watcher 3. \<open>mid_flush\<close> is the state during that run.
\<close>

definition queued :: sched where
  "queued = sched0\<lparr>queue := [5, 1, 7], has := (\<lambda>w. w \<in> {1, 5, 7}), waiting := True, ticks := 1\<rparr>"

definition late3 :: "nat \<Rightarrow> effect" where
  "late3 k = (if k = 1 then ([3], None) else ([], None))"

definition mid_flush :: sched where
  "mid_flush = sched0\<lparr>queue := [1, 5, 7], has := (\<lambda>w. w = 7), waiting := True, flushing := True,
     index := 1, runs := [1, 5], ticks := 1\<rparr>"

text \<open>Watcher 4 is queued and a flush was requested; each of its runs enqueues it again.\<close>

definition loop_state :: sched where
  "loop_state = sched0\<lparr>queue := [4], has := (has sched0)(4 := True), waiting := True\<rparr>"

section \<open>Properties of the subscription graph\<close>

lemma removeSub_fields [simp]:
  "subs (removeSub d w s) = (subs s)(d := remove1 w (subs s d))"
  "watchers (removeSub d w s) = watchers s"
  "target (removeSub d w s) = target s"
  "targetStack (removeSub d w s) = targetStack s"
  "handled (removeSub d w s) = handled s"
  "cb_calls (removeSub d w s) = cb_calls s"
  "trace (removeSub d w s) = trace s"
  by (simp_all add: removeSub_def)

lemma addSub_fields [simp]:
  "subs (addSub d w s) = (subs s)(d := subs s d @ [w])"
  "watchers (addSub d w s) = watchers s"
  "target (addSub d w s) = target s"
  "targetStack (addSub d w s) = targetStack s"
  "handled (addSub d w s) = handled s"
  "cb_calls (addSub d w s) = cb_calls s"
  "trace (addSub d w s) = trace s"
  by (simp_all add: addSub_def)

lemma upd_watcher_fields [simp]:
  "subs (upd_watcher w f s) = subs s"
  "watchers (upd_watcher w f s) = (watchers s)(w := f (watchers s w))"
  "target (upd_watcher w f s) = target s"
  "targetStack (upd_watcher w f s) = targetStack s"
  "handled (upd_watcher w f s) = handled s"
  "cb_calls (upd_watcher w f s) = cb_calls s"
  "trace (upd_watcher w f s) = trace s"
  by (simp_all add: upd_watcher_def)

lemma subs_inv_addDep: "subs_inv s \<Longrightarrow> subs_inv (addDep w d s)"
proof -
  assume inv: "subs_inv s"
  show ?thesis
  proof (cases "d \<in> newDepIds (watchers s w)")
    case True
    then show ?thesis using inv by (simp add: addDep_def)
  next
    case new: False
    show ?thesis
    proof (cases "d \<in> depIds (watchers s w)")
      case True
      then show ?thesis
        using inv new unfolding subs_inv_def addDep_def Let_def
        by (simp; blast)
    next
      case False
      with new inv have "w \<notin> set (subs s d)"
        unfolding subs_inv_def by blast
      then show ?thesis
        using inv new False unfolding subs_inv_def addDep_def Let_def
        by (simp; blast)
    qed
  qed
qed

lemma subs_inv_trace_update [simp]: "subs_inv (s\<lparr>trace := t\<rparr>) = subs_inv s"
  by (simp add: subs_inv_def)

lemma subs_inv_depend: "subs_inv s \<Longrightarrow> subs_inv (depend d s)"
  by (simp add: depend_def Let_def subs_inv_addDep split: option.splits)

lemma subs_inv_depend_all: "subs_inv s \<Longrightarrow> subs_inv (depend_all ds s)"
  by (induction ds arbitrary: s) (simp_all add: subs_inv_depend)

lemma watchers_cleanup_loop [simp]: "watchers (cleanup_loop w ds s) = watchers s"
  by (induction ds arbitrary: s) simp_all

lemma watchers_teardown_loop [simp]: "watchers (teardown_loop w ds s) = watchers s"
  by (induction ds arbitrary: s) simp_all

lemma subs_cleanup_loop_kept:
  "d \<notin> set ds \<or> d \<in> newDepIds (watchers s w) \<Longrightarrow> subs (cleanup_loop w ds s) d = subs s d"
  by (induction ds arbitrary: s) auto

lemma set_subs_cleanup_loop:
  "x \<in> set (subs (cleanup_loop w ds s) d) \<Longrightarrow> x \<in> set (subs s d)"
proof (induction ds arbitrary: s)
  case Nil
  then show ?case by simp
next
  case (Cons a ds)
  let ?s' = "if a \<notin> newDepIds (watchers s w) then removeSub a w s else s"
  from Cons.prems have "x \<in> set (subs (cleanup_loop w ds ?s') d)" by simp
  then have "x \<in> set (subs ?s' d)" by (rule Cons.IH)
  then show ?case
    by (auto split: if_splits dest: set_remove1_subset [THEN subsetD])
qed

lemma distinct_subs_cleanup_loop:
  "distinct (subs s d) \<Longrightarrow> distinct (subs (cleanup_loop w ds s) d)"
proof (induction ds arbitrary: s)
  case Nil
  then show ?case by simp
next
  case (Cons a ds)
  let ?s' = "if a \<notin> newDepIds (watchers s w) then removeSub a w s else s"
  have "distinct (subs ?s' d)" using Cons.prems by auto
  then have "distinct (subs (cleanup_loop w ds ?s') d)" by (rule Cons.IH)
  then show ?case by simp
qed

lemma other_subs_cleanup_loop:
  "w' \<noteq> w \<Longrightarrow> w' \<in> set (subs (cleanup_loop w ds s) d) \<longleftrightarrow> w' \<in> set (subs s d)"
proof (induction ds arbitrary: s)
  case Nil
  then show ?case by simp
next
  case (Cons a ds)
  let ?s' = "if a \<notin> newDepIds (watchers s w) then removeSub a w s else s"
  have "w' \<in> set (subs (cleanup_loop w ds ?s') d) \<longleftrightarrow> w' \<in> set (subs ?s' d)"
    using Cons.prems by (rule Cons.IH)
  also have "\<dots> \<longleftrightarrow> w' \<in> set (subs s d)"
    using Cons.prems by simp
  finally show ?case by simp
qed

lemma removed_subs_cleanup_loop:
  "distinct (subs s d) \<Longrightarrow> d \<in> set ds \<Longrightarrow> d \<notin> newDepIds (watchers s w)
     \<Longrightarrow> w \<notin> set (subs (cleanup_loop w ds s) d)"
proof (induction ds arbitrary: s)
  case Nil
  then show ?case by simp
next
  case (Cons a ds)
  let ?s' = "if a \<notin> newDepIds (watchers s w) then removeSub a w s else s"
  have dist: "distinct (subs ?s' d)" using Cons.prems(1) by auto
  have new: "d \<notin> newDepIds (watchers ?s' w)" using Cons.prems(3) by simp
  show ?case
  proof (cases "a = d")
    case True
    have "w \<notin> set (subs ?s' d)"
      using Cons.prems(1,3) True by simp
    then have "w \<notin> set (subs (cleanup_loop w ds ?s') d)"
      using set_subs_cleanup_loop by blast
    then show ?thesis by simp
  next
    case False
    with Cons.prems(2) have "d \<in> set ds" by simp
    from Cons.IH [OF dist this new] show ?thesis by simp
  qed
qed

lemma subs_inv_cleanupDeps: "subs_inv s \<Longrightarrow> subs_inv (cleanupDeps w s)"
proof -
  assume inv: "subs_inv s"
  let ?s1 = "cleanup_loop w (rev (deps (watchers s w))) s"
  have dist: "\<And>d. distinct (subs ?s1 d)"
    using inv distinct_subs_cleanup_loop unfolding subs_inv_def by blast
  have mem: "x \<in> set (subs ?s1 d) \<Longrightarrow>
      d \<in> (if x = w then newDepIds (watchers s w)
            else depIds (watchers s x) \<union> newDepIds (watchers s x))" for x d
  proof -
    assume a: "x \<in> set (subs ?s1 d)"
    then have b: "x \<in> set (subs s d)" by (rule set_subs_cleanup_loop)
    with inv have c: "d \<in> depIds (watchers s x) \<union> newDepIds (watchers s x)"
      unfolding subs_inv_def by blast
    show ?thesis
    proof (cases "x = w")
      case False
      with c show ?thesis by simp
    next
      case True
      show ?thesis
      proof (rule ccontr)
        assume "d \<notin> (if x = w then newDepIds (watchers s w)
            else depIds (watchers s x) \<union> newDepIds (watchers s x))"
        with True have n: "d \<notin> newDepIds (watchers s w)" by simp
        with c True have "d \<in> set (rev (deps (watchers s w)))"
          using inv unfolding subs_inv_def by auto
        moreover have "distinct (subs s d)" using inv unfolding subs_inv_def by blast
        ultimately have "w \<notin> set (subs ?s1 d)"
          using n removed_subs_cleanup_loop by blast
        with a True show False by simp
      qed
    qed
  qed
  show ?thesis
    unfolding subs_inv_def cleanupDeps_def Let_def
  proof (intro conjI allI impI)
    fix d show "distinct (subs (upd_watcher w (\<lambda>r. r\<lparr>depIds := newDepIds r, newDepIds := {},
                                 deps := newDeps r, newDeps := []\<rparr>) ?s1) d)"
      using dist by simp
  next
    fix w' show "depIds (watchers (upd_watcher w (\<lambda>r. r\<lparr>depIds := newDepIds r, newDepIds := {},
                                 deps := newDeps r, newDeps := []\<rparr>) ?s1) w') =
       set (deps (watchers (upd_watcher w (\<lambda>r. r\<lparr>depIds := newDepIds r, newDepIds := {},
                                 deps := newDeps r, newDeps := []\<rparr>) ?s1) w'))"
      using inv unfolding subs_inv_def by simp
  next
    fix w' show "newDepIds (watchers (upd_watcher w (\<lambda>r. r\<lparr>depIds := newDepIds r, newDepIds := {},
                                 deps := newDeps r, newDeps := []\<rparr>) ?s1) w') =
       set (newDeps (watchers (upd_watcher w (\<lambda>r. r\<lparr>depIds := newDepIds r, newDepIds := {},
                                 deps := newDeps r, newDeps := []\<rparr>) ?s1) w'))"
      using inv unfolding subs_inv_def by simp
  next
    fix w' d
    assume "w' \<in> set (subs (upd_watcher w (\<lambda>r. r\<lparr>depIds := newDepIds r, newDepIds := {},
                                 deps := newDeps r, newDeps := []\<rparr>) ?s1) d)"
    then have "w' \<in> set (subs ?s1 d)" by simp
    from mem [OF this]
    show "d \<in> depIds (watchers (upd_watcher w (\<lambda>r. r\<lparr>depIds := newDepIds r, newDepIds := {},
                                 deps := newDeps r, newDeps := []\<rparr>) ?s1) w') \<union>
        newDepIds (watchers (upd_watcher w (\<lambda>r. r\<lparr>depIds := newDepIds r, newDepIds := {},
                                 deps := newDeps r, newDeps := []\<rparr>) ?s1) w')"
      by (simp split: if_splits)
  qed
qed

lemma pushTarget_fields [simp]:
  "subs (pushTarget t s) = subs s"
  "watchers (pushTarget t s) = watchers s"
  "target (pushTarget t s) = t"
  "targetStack (pushTarget t s) = targetStack s @ [t]"
  "handled (pushTarget t s) = handled s"
  "cb_calls (pushTarget t s) = cb_calls s"
  "trace (pushTarget t s) = trace s"
  by (simp_all add: pushTarget_def)

lemma popTarget_fields [simp]:
  "subs (popTarget s) = subs s"
  "watchers (popTarget s) = watchers s"
  "targetStack (popTarget s) = butlast (targetStack s)"
  "target (popTarget s) =
     (if butlast (targetStack s) = [] then None else last (butlast (targetStack s)))"
  "handled (popTarget s) = handled s"
  "cb_calls (popTarget s) = cb_calls s"
  "trace (popTarget s) = trace s"
  by (simp_all add: popTarget_def Let_def)

lemma handleError_fields [simp]:
  "subs (handleError e s) = subs s"
  "watchers (handleError e s) = watchers s"
  "target (handleError e s) = target s"
  "targetStack (handleError e s) = targetStack s"
  "handled (handleError e s) = handled s @ [e]"
  "cb_calls (handleError e s) = cb_calls s"
  "trace (handleError e s) = trace s"
  by (simp_all add: handleError_def)

lemma cleanup_loop_fields [simp]:
  "target (cleanup_loop w ds s) = target s"
  "targetStack (cleanup_loop w ds s) = targetStack s"
  "handled (cleanup_loop w ds s) = handled s"
  "cb_calls (cleanup_loop w ds s) = cb_calls s"
  "trace (cleanup_loop w ds s) = trace s"
  by (induction ds arbitrary: s) simp_all

lemma teardown_loop_fields [simp]:
  "target (teardown_loop w ds s) = target s"
  "targetStack (teardown_loop w ds s) = targetStack s"
  "handled (teardown_loop w ds s) = handled s"
  "cb_calls (teardown_loop w ds s) = cb_calls s"
  "trace (teardown_loop w ds s) = trace s"
  by (induction ds arbitrary: s) simp_all

lemma cleanupDeps_fields [simp]:
  "target (cleanupDeps w s) = target s"
  "targetStack (cleanupDeps w s) = targetStack s"
  "handled (cleanupDeps w s) = handled s"
  "cb_calls (cleanupDeps w s) = cb_calls s"
  "trace (cleanupDeps w s) = trace s"
  by (simp_all add: cleanupDeps_def Let_def)

lemma teardown_fields [simp]:
  "target (teardown w s) = target s"
  "targetStack (teardown w s) = targetStack s"
  "handled (teardown w s) = handled s"
  "cb_calls (teardown w s) = cb_calls s"
  "trace (teardown w s) = trace s"
  by (simp_all add: teardown_def)

lemma addDep_fields [simp]:
  "target (addDep w d s) = target s"
  "targetStack (addDep w d s) = targetStack s"
  "handled (addDep w d s) = handled s"
  "cb_calls (addDep w d s) = cb_calls s"
  "trace (addDep w d s) = trace s"
  by (simp_all add: addDep_def Let_def)

lemma depend_fields [simp]:
  "target (depend d s) = target s"
  "targetStack (depend d s) = targetStack s"
  "handled (depend d s) = handled s"
  "cb_calls (depend d s) = cb_calls s"
  "trace (depend d s) = trace s @ [(target s, d)]"
  by (simp_all add: depend_def Let_def split: option.splits)

lemma depend_all_fields [simp]:
  "target (depend_all ds s) = target s"
  "targetStack (depend_all ds s) = targetStack s"
  "handled (depend_all ds s) = handled s"
  "cb_calls (depend_all ds s) = cb_calls s"
  "trace (depend_all ds s) = trace s @ map (\<lambda>d. (target s, d)) ds"
  by (induction ds arbitrary: s) simp_all

lemma depend_all_append: "depend_all (xs @ ys) s = depend_all ys (depend_all xs s)"
  by (induction xs arbitrary: s) simp_all

lemma set_subs_teardown_loop:
  "x \<in> set (subs (teardown_loop w ds s) d) \<Longrightarrow> x \<in> set (subs s d)"
proof (induction ds arbitrary: s)
  case Nil
  then show ?case by simp
next
  case (Cons a ds)
  from Cons.prems have "x \<in> set (subs (teardown_loop w ds (removeSub a w s)) d)" by simp
  then have "x \<in> set (subs (removeSub a w s) d)" by (rule Cons.IH)
  then show ?case
    by (auto split: if_splits dest: set_remove1_subset [THEN subsetD])
qed

lemma distinct_subs_teardown_loop:
  "distinct (subs s d) \<Longrightarrow> distinct (subs (teardown_loop w ds s) d)"
proof (induction ds arbitrary: s)
  case Nil
  then show ?case by simp
next
  case (Cons a ds)
  have "distinct (subs (removeSub a w s) d)" using Cons.prems by auto
  then have "distinct (subs (teardown_loop w ds (removeSub a w s)) d)" by (rule Cons.IH)
  then show ?case by simp
qed

lemma other_subs_teardown_loop:
  "w' \<noteq> w \<Longrightarrow> w' \<in> set (subs (teardown_loop w ds s) d) \<longleftrightarrow> w' \<in> set (subs s d)"
proof (induction ds arbitrary: s)
  case Nil
  then show ?case by simp
next
  case (Cons a ds)
  have "w' \<in> set (subs (teardown_loop w ds (removeSub a w s)) d)
          \<longleftrightarrow> w' \<in> set (subs (removeSub a w s) d)"
    using Cons.prems by (rule Cons.IH)
  also have "\<dots> \<longleftrightarrow> w' \<in> set (subs s d)"
    using Cons.prems by simp
  finally show ?case by simp
qed

lemma subs_inv_upd_watcher:
  assumes "subs_inv s"
    and "deps (f (watchers s w)) = deps (watchers s w)"
    and "newDeps (f (watchers s w)) = newDeps (watchers s w)"
    and "depIds (f (watchers s w)) = depIds (watchers s w)"
    and "newDepIds (f (watchers s w)) = newDepIds (watchers s w)"
  shows "subs_inv (upd_watcher w f s)"
  unfolding subs_inv_def
proof (intro conjI allI impI)
  fix d show "distinct (subs (upd_watcher w f s) d)"
    using assms(1) by (simp add: subs_inv_def)
next
  fix x show "depIds (watchers (upd_watcher w f s) x) = set (deps (watchers (upd_watcher w f s) x))"
    using assms by (cases "x = w") (simp_all add: subs_inv_def)
next
  fix x show "newDepIds (watchers (upd_watcher w f s) x)
                = set (newDeps (watchers (upd_watcher w f s) x))"
    using assms by (cases "x = w") (simp_all add: subs_inv_def)
next
  fix x d assume "x \<in> set (subs (upd_watcher w f s) d)"
  then have "x \<in> set (subs s d)" by simp
  moreover have "\<forall>x d. x \<in> set (subs s d) \<longrightarrow>
         d \<in> depIds (watchers s x) \<union> newDepIds (watchers s x)"
    using assms(1) unfolding subs_inv_def by blast
  ultimately have "d \<in> depIds (watchers s x) \<union> newDepIds (watchers s x)"
    by blast
  then show "d \<in> depIds (watchers (upd_watcher w f s) x)
                 \<union> newDepIds (watchers (upd_watcher w f s) x)"
    using assms(4,5) by (cases "x = w") simp_all
qed

lemma subs_inv_teardown: "subs_inv s \<Longrightarrow> subs_inv (teardown w s)"
proof -
  assume inv: "subs_inv s"
  let ?s1 = "teardown_loop w (rev (deps (watchers s w))) s"
  have "subs_inv ?s1"
    unfolding subs_inv_def
  proof (intro conjI allI impI)
    fix d show "distinct (subs ?s1 d)"
      using inv distinct_subs_teardown_loop unfolding subs_inv_def by blast
  next
    fix w' show "depIds (watchers ?s1 w') = set (deps (watchers ?s1 w'))"
      using inv unfolding subs_inv_def by simp
  next
    fix w' show "newDepIds (watchers ?s1 w') = set (newDeps (watchers ?s1 w'))"
      using inv unfolding subs_inv_def by simp
  next
    fix w' d assume "w' \<in> set (subs ?s1 d)"
    then have "w' \<in> set (subs s d)" by (rule set_subs_teardown_loop)
    moreover have "\<forall>x d. x \<in> set (subs s d) \<longrightarrow>
         d \<in> depIds (watchers s x) \<union> newDepIds (watchers s x)"
      using inv unfolding subs_inv_def by blast
    ultimately have "d \<in> depIds (watchers s w') \<union> newDepIds (watchers s w')"
      by blast
    then show "d \<in> depIds (watchers ?s1 w') \<union> newDepIds (watchers ?s1 w')"
      by simp
  qed
  then have "subs_inv (upd_watcher w (\<lambda>r. r\<lparr>active := False\<rparr>) ?s1)"
    by (rule subs_inv_upd_watcher) simp_all
  then show ?thesis using inv by (simp add: teardown_def)
qed

lemma subs_inv_pushTarget [simp]: "subs_inv (pushTarget t s) = subs_inv s"
  by (simp add: subs_inv_def)

lemma subs_inv_popTarget [simp]: "subs_inv (popTarget s) = subs_inv s"
  by (simp add: subs_inv_def)

lemma subs_inv_handleError [simp]: "subs_inv (handleError e s) = subs_inv s"
  by (simp add: subs_inv_def)

lemma subs_inv_run_acts_get:
  "(subs_inv s \<longrightarrow> subs_inv (run_act a s))"
  "(subs_inv s \<longrightarrow> subs_inv (run_acts as s))"
  "(subs_inv s \<longrightarrow> subs_inv (snd (get w sc s)))"
proof (induction a s and as s and w sc s rule: run_act_run_acts_get.induct)
  case (1 d s)
  then show ?case by (simp add: subs_inv_depend)
next
  case (2 w sc s)
  show ?case
  proof
    assume "subs_inv s"
    with 2 have inv1: "subs_inv (snd (get w sc s))" by simp
    have "subs_inv (upd_watcher w (\<lambda>r. r\<lparr>wvalue := v, dirty := False\<rparr>) (snd (get w sc s)))"
      for v using inv1 by (rule subs_inv_upd_watcher) simp_all
    with inv1 show "subs_inv (run_act (Eval w sc) s)"
      by (cases "get w sc s") (auto split: sum.splits)
  qed
next
  case (3 w s)
  then show ?case by (simp add: subs_inv_teardown)
next
  case (4 s)
  then show ?case by simp
next
  case (5 a as s)
  then show ?case by simp
next
  case (6 w acts out trav s)
  show ?case
  proof
    assume inv: "subs_inv s"
    let ?s2 = "run_acts acts (pushTarget (Some w) s)"
    have s2: "subs_inv ?s2" using 6 inv by simp
    show "subs_inv (snd (get w (Script acts out trav) s))"
      using s2
      by (cases out)
         (simp_all add: Let_def subs_inv_cleanupDeps subs_inv_depend_all split: prod.splits)
  qed
qed

lemma addDep_watchers:
  "watchers (addDep w d s) =
     (watchers s)(w := (if d \<in> newDepIds (watchers s w) then watchers s w
                        else (watchers s w)\<lparr>newDepIds := insert d (newDepIds (watchers s w)),
                                               newDeps := newDeps (watchers s w) @ [d]\<rparr>))"
  by (simp add: addDep_def Let_def)

lemma addDep_subs:
  "subs (addDep w d s) =
     (if d \<in> newDepIds (watchers s w) \<or> d \<in> depIds (watchers s w) then subs s
      else (subs s)(d := subs s d @ [w]))"
  by (simp add: addDep_def Let_def)

lemma depend_watchers:
  "watchers (depend d s) =
     (case target s of None \<Rightarrow> watchers s
      | Some w \<Rightarrow> (watchers s)(w := (if d \<in> newDepIds (watchers s w) then watchers s w
                        else (watchers s w)\<lparr>newDepIds := insert d (newDepIds (watchers s w)),
                                               newDeps := newDeps (watchers s w) @ [d]\<rparr>)))"
  by (simp add: depend_def Let_def addDep_watchers split: option.splits)

lemma depend_subs:
  "subs (depend d s) =
     (case target s of None \<Rightarrow> subs s
      | Some w \<Rightarrow> (if d \<in> newDepIds (watchers s w) \<or> d \<in> depIds (watchers s w) then subs s
                   else (subs s)(d := subs s d @ [w])))"
  by (simp add: depend_def Let_def addDep_subs split: option.splits)

lemma reads_of_depend:
  "reads_of w (depend d s) = reads_of w s @ (if target s = Some w then [d] else [])"
  by (simp add: reads_of_def)

lemma mem_subs_depend_self:
  "target s = Some w \<Longrightarrow>
   w \<in> set (subs (depend d s) x) \<longleftrightarrow>
     w \<in> set (subs s x) \<or>
       (x = d \<and> d \<notin> newDepIds (watchers s w) \<and> d \<notin> depIds (watchers s w))"
  by (auto simp: depend_subs)

lemma mem_subs_depend_other:
  "target s \<noteq> Some w \<Longrightarrow> w \<in> set (subs (depend d s) x) \<longleftrightarrow> w \<in> set (subs s x)"
  by (cases "target s") (auto simp: depend_subs)

lemma watchers_depend_other:
  "target s \<noteq> Some w \<Longrightarrow> watchers (depend d s) w = watchers s w"
  by (cases "target s") (auto simp: depend_watchers)

lemma wview_depend_self:
  "target s = Some w \<Longrightarrow>
   wview w (depend d s) =
     ((if d \<in> newDepIds (watchers s w) then watchers s w
       else (watchers s w)\<lparr>newDepIds := insert d (newDepIds (watchers s w)),
                              newDeps := newDeps (watchers s w) @ [d]\<rparr>),
      (\<lambda>x. w \<in> set (subs s x) \<or>
            (x = d \<and> d \<notin> newDepIds (watchers s w) \<and> d \<notin> depIds (watchers s w))),
      reads_of w s @ [d])"
  by (simp add: wview_def depend_watchers mem_subs_depend_self reads_of_depend)

lemma wview_depend_other:
  "target s \<noteq> Some w \<Longrightarrow> wview w (depend d s) = wview w s"
  by (simp add: wview_def watchers_depend_other mem_subs_depend_other reads_of_depend)

lemma wview_depend_cong:
  assumes "wview w s1 = wview w s2" "target s1 = target s2"
  shows "wview w (depend d s1) = wview w (depend d s2)"
proof (cases "target s2 = Some w")
  case True
  from assms(1) have a: "watchers s1 w = watchers s2 w"
    and b: "(\<lambda>x. w \<in> set (subs s1 x)) = (\<lambda>x. w \<in> set (subs s2 x))"
    and c: "reads_of w s1 = reads_of w s2"
    by (simp_all add: wview_def)
  from b have b': "\<And>x. w \<in> set (subs s1 x) \<longleftrightarrow> w \<in> set (subs s2 x)"
    by (simp add: fun_eq_iff)
  have t1: "target s1 = Some w" using True assms(2) by simp
  show ?thesis
    unfolding wview_depend_self [OF t1] wview_depend_self [OF True] a c b'
    by (rule refl)
next
  case False
  then have "target s1 \<noteq> Some w" using assms(2) by simp
  then show ?thesis
    using False assms(1) by (simp add: wview_depend_other)
qed

lemma wview_depend_all_cong:
  "wview w s1 = wview w s2 \<Longrightarrow> target s1 = target s2
     \<Longrightarrow> wview w (depend_all ds s1) = wview w (depend_all ds s2)"
proof (induction ds arbitrary: s1 s2)
  case Nil
  then show ?case by simp
next
  case (Cons d ds)
  have "wview w (depend d s1) = wview w (depend d s2)"
    using Cons.prems by (rule wview_depend_cong)
  moreover have "target (depend d s1) = target (depend d s2)"
    using Cons.prems(2) by simp
  ultimately have "wview w (depend_all ds (depend d s1)) = wview w (depend_all ds (depend d s2))"
    by (rule Cons.IH)
  then show ?case by simp
qed

lemma wview_depend_all_other:
  "target s \<noteq> Some w \<Longrightarrow> wview w (depend_all ds s) = wview w s"
  by (induction ds arbitrary: s) (simp_all add: wview_depend_other)

lemma wview_teardown_other:
  "w' \<noteq> w \<Longrightarrow> wview w (teardown w' s) = wview w s"
  by (simp add: wview_def teardown_def reads_of_def other_subs_teardown_loop)

lemma wview_cleanupDeps_other:
  "w' \<noteq> w \<Longrightarrow> wview w (cleanupDeps w' s) = wview w s"
  by (simp add: wview_def cleanupDeps_def Let_def reads_of_def other_subs_cleanup_loop)

lemma wview_simps [simp]:
  "wview w (pushTarget t s) = wview w s"
  "wview w (popTarget s) = wview w s"
  "wview w (handleError e s) = wview w s"
  by (simp_all add: wview_def reads_of_def)

lemma target_ok_pushTarget [simp]: "target_ok (pushTarget t s)"
  by (simp add: target_ok_def)

lemma target_okI: "targetStack s' = targetStack s \<Longrightarrow> target s' = target s
    \<Longrightarrow> target_ok s \<Longrightarrow> target_ok s'"
  by (simp add: target_ok_def)

lemma touched_Cons:
  "touched (a # as) = touched [a] @ touched as"
  by (cases a) simp_all

lemma run_acts_view:
  "target_ok s \<and> act_free u a \<longrightarrow>
     targetStack (run_act a s) = targetStack s \<and> target (run_act a s) = target s \<and>
     wview u (run_act a s) = wview u (if target s = Some u then depend_all (touched [a]) s else s)"
  "target_ok s \<and> acts_free u as \<longrightarrow>
     targetStack (run_acts as s) = targetStack s \<and> target (run_acts as s) = target s \<and>
     wview u (run_acts as s) = wview u (if target s = Some u then depend_all (touched as) s else s)"
  "target_ok s \<and> w \<noteq> u \<and> script_free u sc \<longrightarrow>
     targetStack (snd (get w sc s)) = targetStack s \<and> target (snd (get w sc s)) = target s \<and>
     wview u (snd (get w sc s)) = wview u s"
proof (induction a s and as s and w sc s rule: run_act_run_acts_get.induct)
  case (1 d s)
  then show ?case by (simp add: wview_depend_other)
next
  case (2 w sc s)
  show ?case
  proof
    assume pre: "target_ok s \<and> act_free u (Eval w sc)"
    with 2 have a: "targetStack (snd (get w sc s)) = targetStack s"
        "target (snd (get w sc s)) = target s"
        "wview u (snd (get w sc s)) = wview u s"
      by simp_all
    have b: "wview u (upd_watcher w f s1) = wview u s1" for f s1
      using pre by (simp add: wview_def reads_of_def)
    show "targetStack (run_act (Eval w sc) s) = targetStack s \<and>
          target (run_act (Eval w sc) s) = target s \<and>
          wview u (run_act (Eval w sc) s)
            = wview u (if target s = Some u then depend_all (touched [Eval w sc]) s else s)"
      using a b by (cases "get w sc s") (auto split: sum.splits)
  qed
next
  case (3 w s)
  then show ?case by (simp add: wview_teardown_other)
next
  case (4 s)
  then show ?case by simp
next
  case (5 a as s)
  show ?case
  proof
    assume pre: "target_ok s \<and> acts_free u (a # as)"
    let ?s1 = "run_act a s"
    from pre 5(1) have a1: "targetStack ?s1 = targetStack s" "target ?s1 = target s"
      and v1: "wview u ?s1 = wview u (if target s = Some u then depend_all (touched [a]) s else s)"
      by simp_all
    have ok1: "target_ok ?s1" using a1 pre by (simp add: target_ok_def)
    from pre ok1 5(2) have a2: "targetStack (run_acts as ?s1) = targetStack ?s1"
        "target (run_acts as ?s1) = target ?s1"
      and v2: "wview u (run_acts as ?s1)
                 = wview u (if target ?s1 = Some u then depend_all (touched as) ?s1 else ?s1)"
      by simp_all
    show "targetStack (run_acts (a # as) s) = targetStack s \<and>
          target (run_acts (a # as) s) = target s \<and>
          wview u (run_acts (a # as) s)
            = wview u (if target s = Some u then depend_all (touched (a # as)) s else s)"
    proof (cases "target s = Some u")
      case True
      have "wview u (depend_all (touched as) ?s1)
              = wview u (depend_all (touched as) (depend_all (touched [a]) s))"
        using v1 True a1 by (intro wview_depend_all_cong) simp_all
      then show ?thesis
        using a1 a2 v2 True
        by (simp add: touched_Cons [of a as] depend_all_append)
    next
      case False
      then show ?thesis using a1 a2 v1 v2 by simp
    qed
  qed
next
  case (6 w acts out trav s)
  show ?case
  proof
    assume pre: "target_ok s \<and> w \<noteq> u \<and> script_free u (Script acts out trav)"
    let ?s1 = "pushTarget (Some w) s"
    let ?s2 = "run_acts acts ?s1"
    from pre 6 [of ?s1] have a2: "targetStack ?s2 = targetStack s @ [Some w]"
        "target ?s2 = Some w"
      and v2: "wview u ?s2 = wview u s"
      by simp_all
    have tgt: "target s = (if targetStack s = [] then None else last (targetStack s))"
      using pre by (simp add: target_ok_def)
    show "targetStack (snd (get w (Script acts out trav) s)) = targetStack s \<and>
          target (snd (get w (Script acts out trav) s)) = target s \<and>
          wview u (snd (get w (Script acts out trav) s)) = wview u s"
      using a2 v2 pre tgt
      by (cases out)
         (simp_all add: Let_def wview_cleanupDeps_other wview_depend_all_other
            split: prod.splits)
  qed
qed

lemma snd_get_eq:
  "snd (get w (Script acts out trav) s) =
     (let s2 = run_acts acts (pushTarget (Some w) s);
          s3 = (case out of Returns v \<Rightarrow> s2
                | Throws e \<Rightarrow> if user (watchers s2 w) then handleError e s2 else s2);
          v = (case out of Returns v \<Rightarrow> v | Throws e \<Rightarrow> Undefined);
          s4 = (if deep (watchers s3 w) then depend_all (trav v) s3 else s3)
      in cleanupDeps w (popTarget s4))"
  by (cases out) (simp_all add: Let_def)

lemma fst_get_eq:
  "fst (get w (Script acts out trav) s) =
     (case out of Returns v \<Rightarrow> Inr v
      | Throws e \<Rightarrow> if user (watchers (run_acts acts (pushTarget (Some w) s)) w)
                    then Inr Undefined else Inl e)"
  by (cases out) (simp_all add: Let_def)

lemma depend_all_self:
  "target s = Some w \<Longrightarrow>
     newDepIds (watchers (depend_all ds s) w) = newDepIds (watchers s w) \<union> set ds \<and>
     depIds (watchers (depend_all ds s) w) = depIds (watchers s w) \<and>
     deep (watchers (depend_all ds s) w) = deep (watchers s w) \<and>
     user (watchers (depend_all ds s) w) = user (watchers s w) \<and>
     reads_of w (depend_all ds s) = reads_of w s @ ds \<and>
     (\<forall>x. w \<in> set (subs (depend_all ds s) x) \<longleftrightarrow>
          w \<in> set (subs s x) \<or>
          (x \<in> set ds \<and> x \<notin> newDepIds (watchers s w) \<and> x \<notin> depIds (watchers s w)))"
proof (induction ds arbitrary: s)
  case Nil
  then show ?case by simp
next
  case (Cons d ds)
  let ?s1 = "depend d s"
  have t1: "target ?s1 = Some w" using Cons.prems by simp
  have n1: "newDepIds (watchers ?s1 w) = insert d (newDepIds (watchers s w))"
    and d1: "depIds (watchers ?s1 w) = depIds (watchers s w)"
    and f1: "deep (watchers ?s1 w) = deep (watchers s w)"
    and u1: "user (watchers ?s1 w) = user (watchers s w)"
    using Cons.prems by (auto simp: depend_watchers)
  have r1: "reads_of w ?s1 = reads_of w s @ [d]"
    using Cons.prems by (simp add: reads_of_depend)
  have m1: "\<And>x. w \<in> set (subs ?s1 x) \<longleftrightarrow> w \<in> set (subs s x) \<or>
       (x = d \<and> d \<notin> newDepIds (watchers s w) \<and> d \<notin> depIds (watchers s w))"
    using Cons.prems by (rule mem_subs_depend_self)
  from Cons.IH [OF t1] show ?case
    unfolding n1 d1 f1 u1 r1 m1 by auto
qed

lemma watchers_cleanupDeps:
  "watchers (cleanupDeps w s) =
     (watchers s)(w := (watchers s w)\<lparr>depIds := newDepIds (watchers s w), newDepIds := {},
                                       deps := newDeps (watchers s w), newDeps := []\<rparr>)"
  by (simp add: cleanupDeps_def Let_def)

lemma subs_cleanupDeps_kept:
  "d \<in> newDepIds (watchers s w) \<Longrightarrow> subs (cleanupDeps w s) d = subs s d"
  by (simp add: cleanupDeps_def Let_def subs_cleanup_loop_kept)

text \<open>
  Claim C1, as amended. Let watcher \<open>w\<close> be between passes (nothing newly collected)
  in a well-formed state, and let its getter neither evaluate nor tear down \<open>w\<close> itself.
  After \<open>get\<close>, with \<open>T\<close> the deps whose \<open>depend()\<close> was called while
  \<open>w\<close> was \<open>Dep.target\<close> during the pass (the reads of the getter itself and,
  for a deep watcher, of \<open>traverse\<close>; not those of watchers evaluated in between):
  \<open>depIds\<close> and \<open>deps\<close> hold exactly \<open>T\<close>, \<open>newDeps\<close> and
  \<open>newDepIds\<close> are empty, \<open>w\<close> is gone from the subscribers of every dep of the
  previous generation that is not in \<open>T\<close>, it subscribes to a dep exactly when the dep
  is in \<open>T\<close> and it was subscribed before or the dep is new to it, hence (for a
  watcher subscribed to all it had recorded) exactly to the deps in \<open>T\<close>.
\<close>

theorem get_reconciles_deps:
  assumes inv: "subs_inv s"
    and idle: "newDeps (watchers s w) = []"
    and free: "script_free w sc"
  shows "let s' = snd (get w sc s); T = pass_reads w s s' in
      T = pass_touched (deep (watchers s w)) sc \<and>
      depIds (watchers s' w) = set T \<and> set (deps (watchers s' w)) = set T \<and>
      newDeps (watchers s' w) = [] \<and> newDepIds (watchers s' w) = {} \<and>
      (\<forall>d. d \<in> depIds (watchers s w) \<and> d \<notin> set T \<longrightarrow> w \<notin> set (subs s' d)) \<and>
      (\<forall>d. w \<in> set (subs s' d) \<longleftrightarrow>
            d \<in> set T \<and> (w \<in> set (subs s d) \<or> d \<notin> depIds (watchers s w))) \<and>
      (subscribed w s \<longrightarrow> (\<forall>d. w \<in> set (subs s' d) \<longleftrightarrow> d \<in> set T)) \<and>
      (\<forall>d. distinct (subs s' d))"
proof -
  obtain acts out trav where sc: "sc = Script acts out trav" by (cases sc)
  define s1 where "s1 = pushTarget (Some w) s"
  define s2 where "s2 = run_acts acts s1"
  define s3 where "s3 = (case out of Returns v \<Rightarrow> s2
                | Throws e \<Rightarrow> if user (watchers s2 w) then handleError e s2 else s2)"
  define v where "v = (case out of Returns v \<Rightarrow> v | Throws e \<Rightarrow> Undefined)"
  define s4 where "s4 = (if deep (watchers s3 w) then depend_all (trav v) s3 else s3)"
  define s' where "s' = cleanupDeps w (popTarget s4)"
  define T where "T = pass_touched (deep (watchers s w)) sc"
  define sD where "sD = depend_all T s1"
  have get: "snd (get w sc s) = s'"
    unfolding sc snd_get_eq s'_def s4_def s3_def v_def s2_def s1_def Let_def
    by (rule refl)
  have t1: "target s1 = Some w" by (simp add: s1_def)
  have "target_ok s1 \<and> acts_free w acts" using free by (simp add: s1_def sc)
  with run_acts_view(2) [of s1 w acts]
  have t2: "target s2 = Some w" and v2: "wview w s2 = wview w (depend_all (touched acts) s1)"
    by (simp_all add: s2_def t1)
  have t3: "target s3 = Some w" and v3: "wview w s3 = wview w (depend_all (touched acts) s1)"
    using t2 v2 by (simp_all add: s3_def split: outcome.splits)
  have selfA: "deep (watchers (depend_all (touched acts) s1) w) = deep (watchers s w)"
    using depend_all_self [OF t1, of "touched acts"] by (simp add: s1_def)
  have dp3: "deep (watchers s3 w) = deep (watchers s w)"
    using v3 selfA by (simp add: wview_def)
  have T_eq: "T = touched acts @ (if deep (watchers s w) then trav v else [])"
    by (simp add: T_def sc v_def)
  have v4: "wview w s4 = wview w sD"
  proof (cases "deep (watchers s w)")
    case True
    have "wview w (depend_all (trav v) s3)
            = wview w (depend_all (trav v) (depend_all (touched acts) s1))"
      using v3 t3 t1 by (intro wview_depend_all_cong) simp_all
    then show ?thesis
      using True dp3 by (simp add: s4_def sD_def T_eq depend_all_append)
  next
    case False
    then show ?thesis using dp3 v3 by (simp add: s4_def sD_def T_eq)
  qed
  have nd0: "newDepIds (watchers s w) = {}"
    using inv idle by (simp add: subs_inv_def)
  have selfD: "newDepIds (watchers sD w) = set T"
    "depIds (watchers sD w) = depIds (watchers s w)"
    "reads_of w sD = reads_of w s @ T"
    "\<And>x. w \<in> set (subs sD x) \<longleftrightarrow>
          w \<in> set (subs s x) \<or> (x \<in> set T \<and> x \<notin> depIds (watchers s w))"
    using depend_all_self [OF t1, of T] nd0
    by (simp_all add: sD_def s1_def reads_of_def)
  have w4: "watchers s4 w = watchers sD w"
    and m4: "\<And>x. w \<in> set (subs s4 x) \<longleftrightarrow> w \<in> set (subs sD x)"
    and r4: "reads_of w s4 = reads_of w sD"
    using v4 by (simp_all add: wview_def fun_eq_iff)
  have inv2: "subs_inv s2"
    using inv subs_inv_run_acts_get(2) [of s1 acts] by (simp add: s2_def s1_def)
  have inv3: "subs_inv s3"
    using inv2 by (simp add: s3_def split: outcome.splits)
  have inv4: "subs_inv s4"
    using inv3 by (simp add: s4_def subs_inv_depend_all)
  have inv5: "subs_inv (popTarget s4)" using inv4 by simp
  have inv': "subs_inv s'" unfolding s'_def using inv5 by (rule subs_inv_cleanupDeps)
  have w': "watchers s' w = (watchers s4 w)\<lparr>depIds := newDepIds (watchers s4 w), newDepIds := {},
                                       deps := newDeps (watchers s4 w), newDeps := []\<rparr>"
    by (simp add: s'_def watchers_cleanupDeps)
  have n4: "newDepIds (watchers s4 w) = set T" using w4 selfD(1) by simp
  have reads: "pass_reads w s s' = T"
    using r4 selfD(3) by (simp add: pass_reads_def s'_def reads_of_def)
  have c1: "depIds (watchers s' w) = set T" using w' n4 by simp
  have c2: "set (deps (watchers s' w)) = set T"
    using inv' c1 unfolding subs_inv_def by metis
  have c3: "newDeps (watchers s' w) = []" "newDepIds (watchers s' w) = {}"
    using w' by simp_all
  have mem: "w \<in> set (subs s' d) \<longleftrightarrow>
            d \<in> set T \<and> (w \<in> set (subs s d) \<or> d \<notin> depIds (watchers s w))" for d
  proof (cases "d \<in> set T")
    case True
    then have "subs s' d = subs (popTarget s4) d"
      unfolding s'_def using n4 by (intro subs_cleanupDeps_kept) simp
    then show ?thesis using True m4 selfD(4) by simp
  next
    case False
    have "w \<notin> set (subs s' d)"
    proof
      assume "w \<in> set (subs s' d)"
      with inv' have "d \<in> depIds (watchers s' w) \<union> newDepIds (watchers s' w)"
        unfolding subs_inv_def by blast
      with c1 c3 False show False by simp
    qed
    with False show ?thesis by simp
  qed
  have sub: "subscribed w s \<longrightarrow> (\<forall>d. w \<in> set (subs s' d) \<longleftrightarrow> d \<in> set T)"
    unfolding subscribed_def using mem by blast
  have dist: "\<forall>d. distinct (subs s' d)"
    using inv' unfolding subs_inv_def by blast
  show ?thesis
    unfolding Let_def get reads
    using c1 c2 c3 mem sub dist by (simp add: T_def)
qed

lemma fresh_watcher_fields [simp]:
  "deep fresh_watcher = False" "user fresh_watcher = False" "lazy fresh_watcher = False"
  "sync fresh_watcher = False" "dirty fresh_watcher = False" "active fresh_watcher = True"
  "deps fresh_watcher = []" "newDeps fresh_watcher = []" "depIds fresh_watcher = {}"
  "newDepIds fresh_watcher = {}" "wvalue fresh_watcher = Undefined"
  by (simp_all add: fresh_watcher_def)

lemma subs_inv_initial: "initial s \<Longrightarrow> subs_inv s"
  by (simp add: initial_def subs_inv_def)

lemma initial_init_state: "initial init_state"
  by (simp add: initial_def init_state_def fresh_watcher_def)

lemma subs_inv_cb_calls_update [simp]: "subs_inv (s\<lparr>cb_calls := c\<rparr>) = subs_inv s"
  by (simp add: subs_inv_def)

lemma subs_inv_run: "subs_inv s \<Longrightarrow> subs_inv (snd (run w sc cb_throws s))"
proof -
  assume inv: "subs_inv s"
  obtain res s1 where g: "get w sc s = (res, s1)" by (cases "get w sc s")
  have inv1: "subs_inv s1" using subs_inv_run_acts_get(3) [of s w sc] inv g by simp
  have inv2: "subs_inv (upd_watcher w (\<lambda>r. r\<lparr>wvalue := v\<rparr>) s1)" for v
    using inv1 by (rule subs_inv_upd_watcher) simp_all
  show ?thesis
    using inv inv1 inv2 g
    by (auto simp: run_def Let_def split: sum.splits option.splits)
qed

lemma run_act_Eval: "run_act (Eval w sc) s = snd (evaluate w sc s)"
  by (cases "get w sc s") (auto simp: evaluate_def split: sum.splits)

lemma subs_inv_evaluate: "subs_inv s \<Longrightarrow> subs_inv (snd (evaluate w sc s))"
proof -
  assume inv: "subs_inv s"
  obtain res s1 where g: "get w sc s = (res, s1)" by (cases "get w sc s")
  have inv1: "subs_inv s1" using subs_inv_run_acts_get(3) [of s w sc] inv g by simp
  have inv2: "subs_inv (upd_watcher w (\<lambda>r. r\<lparr>wvalue := v, dirty := False\<rparr>) s1)" for v
    using inv1 by (rule subs_inv_upd_watcher) simp_all
  show ?thesis
    using inv1 inv2 g
    by (auto simp: evaluate_def split: sum.splits)
qed

lemma reachable_subs_inv: "reachable s \<Longrightarrow> subs_inv s"
proof (induction rule: reachable.induct)
  case (start s)
  then show ?case by (rule subs_inv_initial)
next
  case (r_get s w sc)
  then show ?case using subs_inv_run_acts_get(3) by blast
qed (simp_all add: subs_inv_depend subs_inv_addDep subs_inv_cleanupDeps subs_inv_teardown
       subs_inv_run subs_inv_evaluate)

lemma count_list_distinct: "distinct xs \<Longrightarrow> count_list xs x \<le> 1"
  by (induction xs) (auto simp: count_list_0_iff)

lemma count_list_distinct_mem: "distinct xs \<Longrightarrow> x \<in> set xs \<Longrightarrow> count_list xs x = 1"
  by (induction xs) (auto simp: count_list_0_iff)

lemma reachable_depend_all: "reachable s \<Longrightarrow> reachable (depend_all ds s)"
  by (induction ds arbitrary: s) (simp_all add: reachable.r_depend)

text \<open>
  Claim C2. In every reachable state a watcher occurs at most once in the subscriber
  array of a dep. \<open>addDep\<close> appends the watcher to that array exactly when the
  dep's id is in neither \<open>newDepIds\<close> nor \<open>depIds\<close>, and leaves every other
  array alone; so after any number of reads \<open>ds\<close> by the evaluating watcher it is
  still there at most once, and exactly once for a dep that was read when the watcher
  is subscribed to what it has recorded.
\<close>

theorem subscriber_at_most_once:
  assumes "reachable s"
  shows "distinct (subs s d) \<and> count_list (subs s d) w \<le> 1 \<and>
         subs (addDep w d s) d =
           (if d \<in> newDepIds (watchers s w) \<or> d \<in> depIds (watchers s w)
            then subs s d else subs s d @ [w]) \<and>
         (\<forall>d'. d' \<noteq> d \<longrightarrow> subs (addDep w d s) d' = subs s d') \<and>
         count_list (subs (addDep w d s) d) w \<le> 1 \<and>
         count_list (subs (depend_all ds (pushTarget (Some w) s)) d) w \<le> 1 \<and>
         (subscribed w s \<and> d \<in> set ds \<longrightarrow>
            count_list (subs (depend_all ds (pushTarget (Some w) s)) d) w = 1)"
proof -
  have inv: "subs_inv s" using assms by (rule reachable_subs_inv)
  then have d: "distinct (subs s d)" by (simp add: subs_inv_def)
  have c: "count_list (subs s d) w \<le> 1"
    using d by (rule count_list_distinct)
  have "distinct (subs (addDep w d s) d)"
    using subs_inv_addDep [OF inv, of w d] by (simp add: subs_inv_def)
  then have a: "count_list (subs (addDep w d s) d) w \<le> 1"
    by (rule count_list_distinct)
  let ?s' = "depend_all ds (pushTarget (Some w) s)"
  have "reachable ?s'"
    using assms by (intro reachable_depend_all reachable.r_pushTarget)
  then have "subs_inv ?s'" by (rule reachable_subs_inv)
  then have d': "distinct (subs ?s' d)" by (simp add: subs_inv_def)
  then have p: "count_list (subs ?s' d) w \<le> 1" by (rule count_list_distinct)
  have q: "count_list (subs ?s' d) w = 1" if "subscribed w s" "d \<in> set ds"
  proof -
    have "target (pushTarget (Some w) s) = Some w" by simp
    from depend_all_self [OF this, of ds]
    have "w \<in> set (subs ?s' d) \<longleftrightarrow> w \<in> set (subs s d) \<or>
        (d \<in> set ds \<and> d \<notin> newDepIds (watchers s w) \<and> d \<notin> depIds (watchers s w))"
      by simp
    with that have "w \<in> set (subs ?s' d)"
      unfolding subscribed_def by blast
    with d' show ?thesis by (rule count_list_distinct_mem)
  qed
  show ?thesis using d c a p q by (simp add: addDep_subs)
qed

lemma pass1_state:
  "snd (get 1 pass1 init_state) =
     \<lparr>subs = (\<lambda>_. [])(10 := [1], 20 := [1]),
      watchers = (\<lambda>_. fresh_watcher)(1 := fresh_watcher\<lparr>deps := [10, 20], depIds := {10, 20}\<rparr>),
      target = None, targetStack = [], handled = [], cb_calls = [],
      trace = [(Some 1, 10), (Some 1, 20), (Some 1, 10)]\<rparr>"
  by (simp add: pass1_def init_state_def fresh_watcher_def Let_def pushTarget_def popTarget_def
        depend_def addDep_def addSub_def upd_watcher_def cleanupDeps_def removeSub_def
        fun_upd_twist insert_commute)

lemma reachable_pass1: "reachable (snd (get 1 pass1 init_state))"
  by (intro reachable.r_get reachable.start initial_init_state)

theorem subscriber_at_most_once_witness:
  "reachable (snd (get 1 pass1 init_state)) \<and>
   subs (snd (get 1 pass1 init_state)) 10 = [1] \<and>
   count_list (subs (snd (get 1 pass1 init_state)) 10) 1 \<le> 1 \<and>
   subs (addDep 1 10 (snd (get 1 pass1 init_state))) 10 = [1] \<and>
   subscribed 1 (snd (get 1 pass1 init_state)) \<and>
   count_list (subs (depend_all [10, 10, 10] (pushTarget (Some 1) (snd (get 1 pass1 init_state)))) 10) 1 = 1"
proof -
  let ?s = "snd (get 1 pass1 init_state)"
  have sub: "subscribed 1 ?s"
    unfolding pass1_state by (simp add: subscribed_def)
  have val: "subs ?s 10 = [1]" "10 \<in> depIds (watchers ?s 1)"
    unfolding pass1_state by simp_all
  from subscriber_at_most_once [OF reachable_pass1, of 10 1 "[10, 10, 10]"] sub val
  show ?thesis using reachable_pass1 by simp
qed

theorem get_reconciles_deps_witness:
  "subs_inv (snd (get 1 pass1 init_state)) \<and>
   newDeps (watchers (snd (get 1 pass1 init_state)) 1) = [] \<and>
   script_free 1 pass2 \<and>
   subs (snd (get 1 pass1 init_state)) 10 = [1] \<and>
   subs (snd (get 1 pass1 init_state)) 20 = [1] \<and>
   pass_reads 1 (snd (get 1 pass1 init_state)) (snd (get 1 pass2 (snd (get 1 pass1 init_state))))
     = [20, 20] \<and>
   depIds (watchers (snd (get 1 pass2 (snd (get 1 pass1 init_state)))) 1) = {20} \<and>
   newDeps (watchers (snd (get 1 pass2 (snd (get 1 pass1 init_state)))) 1) = [] \<and>
   1 \<notin> set (subs (snd (get 1 pass2 (snd (get 1 pass1 init_state)))) 10) \<and>
   1 \<in> set (subs (snd (get 1 pass2 (snd (get 1 pass1 init_state)))) 20)"
proof -
  let ?s = "snd (get 1 pass1 init_state)"
  have inv: "subs_inv ?s" using reachable_pass1 by (rule reachable_subs_inv)
  have idle: "newDeps (watchers ?s 1) = []" unfolding pass1_state by simp
  have free: "script_free 1 pass2" by (simp add: pass2_def)
  have T: "pass_touched (deep (watchers ?s 1)) pass2 = [20, 20]"
    unfolding pass1_state by (simp add: pass2_def fresh_watcher_def)
  have sub: "subscribed 1 ?s"
    unfolding pass1_state by (simp add: subscribed_def)
  have val: "subs ?s 10 = [1]" "subs ?s 20 = [1]"
    unfolding pass1_state by simp_all
  from get_reconciles_deps [OF inv idle free] T sub
  show ?thesis using inv idle free val by (simp add: Let_def)
qed

lemma reentrant_state:
  "snd (get 1 reentrant init_state) =
     \<lparr>subs = (\<lambda>_. [])(30 := [1]),
      watchers = (\<lambda>_. fresh_watcher)(1 := fresh_watcher\<lparr>deps := [30], depIds := {30},
                     wvalue := Num 5\<rparr>),
      target = None, targetStack = [], handled = [], cb_calls = [],
      trace = [(Some 1, 10), (Some 1, 20), (Some 1, 30)]\<rparr>"
  by (simp add: reentrant_def init_state_def fresh_watcher_def Let_def pushTarget_def popTarget_def
        depend_def addDep_def addSub_def upd_watcher_def cleanupDeps_def removeSub_def
        fun_upd_twist insert_commute fun_eq_iff)

lemma unwatching_state:
  "snd (get 1 unwatching (snd (get 1 pass1 init_state))) =
     \<lparr>subs = (\<lambda>_. []),
      watchers = (\<lambda>_. fresh_watcher)(1 := fresh_watcher\<lparr>deps := [10], depIds := {10},
                     active := False\<rparr>),
      target = None, targetStack = [], handled = [], cb_calls = [],
      trace = [(Some 1, 10), (Some 1, 20), (Some 1, 10), (Some 1, 10)]\<rparr>"
  unfolding pass1_state
  by (simp add: unwatching_def fresh_watcher_def Let_def pushTarget_def popTarget_def
        depend_def addDep_def addSub_def upd_watcher_def cleanupDeps_def removeSub_def
        teardown_def fun_upd_twist insert_commute fun_eq_iff)

text \<open>
  Claim C1 as stated fails. In the first pass \<open>depend()\<close> is called for deps 10, 20
  and 30 while watcher 1 is the target, and the watcher ends with dep 30 alone and is
  unsubscribed from dep 10. In the second, dep 10 is read and stays in \<open>depIds\<close>,
  but the watcher is no longer among its subscribers.
\<close>

theorem get_reentrant_counterexample:
  "reachable init_state \<and> newDeps (watchers init_state 1) = [] \<and>
   pass_reads 1 init_state (snd (get 1 reentrant init_state)) = [10, 20, 30] \<and>
   deps (watchers (snd (get 1 reentrant init_state)) 1) = [30] \<and>
   depIds (watchers (snd (get 1 reentrant init_state)) 1) = {30} \<and>
   1 \<notin> set (subs (snd (get 1 reentrant init_state)) 10) \<and>
   reachable (snd (get 1 pass1 init_state)) \<and>
   newDeps (watchers (snd (get 1 pass1 init_state)) 1) = [] \<and>
   1 \<in> set (subs (snd (get 1 pass1 init_state)) 10) \<and>
   pass_reads 1 (snd (get 1 pass1 init_state)) (snd (get 1 unwatching (snd (get 1 pass1 init_state))))
     = [10] \<and>
   depIds (watchers (snd (get 1 unwatching (snd (get 1 pass1 init_state)))) 1) = {10} \<and>
   1 \<notin> set (subs (snd (get 1 unwatching (snd (get 1 pass1 init_state)))) 10)"
proof -
  have r0: "reachable init_state" by (intro reachable.start initial_init_state)
  have a: "newDeps (watchers init_state 1) = []" "reads_of 1 init_state = []"
    by (simp_all add: init_state_def fresh_watcher_def reads_of_def)
  have b: "pass_reads 1 init_state (snd (get 1 reentrant init_state)) = [10, 20, 30]"
    unfolding pass_reads_def a reentrant_state by (simp add: reads_of_def)
  have c: "deps (watchers (snd (get 1 reentrant init_state)) 1) = [30]"
    "depIds (watchers (snd (get 1 reentrant init_state)) 1) = {30}"
    "1 \<notin> set (subs (snd (get 1 reentrant init_state)) 10)"
    unfolding reentrant_state by simp_all
  have d: "newDeps (watchers (snd (get 1 pass1 init_state)) 1) = []"
    "1 \<in> set (subs (snd (get 1 pass1 init_state)) 10)"
    unfolding pass1_state by (simp_all add: fresh_watcher_def)
  have e: "pass_reads 1 (snd (get 1 pass1 init_state))
      (snd (get 1 unwatching (snd (get 1 pass1 init_state)))) = [10]"
    unfolding pass_reads_def unwatching_state unfolding pass1_state by (simp add: reads_of_def)
  have f: "depIds (watchers (snd (get 1 unwatching (snd (get 1 pass1 init_state)))) 1) = {10}"
    "1 \<notin> set (subs (snd (get 1 unwatching (snd (get 1 pass1 init_state)))) 10)"
    unfolding unwatching_state by simp_all
  show ?thesis using r0 a(1) b c d e f reachable_pass1 by (intro conjI)
qed

section \<open>Properties of run and evaluate\<close>

lemma wflags_updates [simp]:
  "wflags (r\<lparr>newDepIds := a\<rparr>) = wflags r"
  "wflags (r\<lparr>newDeps := b\<rparr>) = wflags r"
  "wflags (r\<lparr>depIds := a\<rparr>) = wflags r"
  "wflags (r\<lparr>deps := b\<rparr>) = wflags r"
  "wflags (r\<lparr>active := c\<rparr>) = wflags r"
  "wflags (r\<lparr>wvalue := v\<rparr>) = wflags r"
  "wflags (r\<lparr>dirty := c\<rparr>) = wflags r"
  by (simp_all add: wflags_def)

lemma wflags_depend: "wflags (watchers (depend d s) x) = wflags (watchers s x)"
  by (cases "target s") (simp_all add: depend_watchers)

lemma wflags_depend_all: "wflags (watchers (depend_all ds s) x) = wflags (watchers s x)"
  by (induction ds arbitrary: s) (simp_all add: wflags_depend)

lemma wflags_cleanupDeps: "wflags (watchers (cleanupDeps w s) x) = wflags (watchers s x)"
  by (simp add: watchers_cleanupDeps)

lemma wflags_teardown: "wflags (watchers (teardown w s) x) = wflags (watchers s x)"
  by (simp add: teardown_def)

lemma get_frame:
  "targetStack (run_act a s) = targetStack s \<and> cb_calls (run_act a s) = cb_calls s \<and>
     (\<forall>x. wflags (watchers (run_act a s) x) = wflags (watchers s x))"
  "targetStack (run_acts as s) = targetStack s \<and> cb_calls (run_acts as s) = cb_calls s \<and>
     (\<forall>x. wflags (watchers (run_acts as s) x) = wflags (watchers s x))"
  "targetStack (snd (get w sc s)) = targetStack s \<and> cb_calls (snd (get w sc s)) = cb_calls s \<and>
     (\<forall>x. wflags (watchers (snd (get w sc s)) x) = wflags (watchers s x))"
proof (induction a s and as s and w sc s rule: run_act_run_acts_get.induct)
  case (1 d s)
  then show ?case by (simp add: wflags_depend)
next
  case (2 w sc s)
  then show ?case by (cases "get w sc s") (auto split: sum.splits)
next
  case (3 w s)
  then show ?case by (simp add: wflags_teardown)
next
  case (4 s)
  then show ?case by simp
next
  case (5 a as s)
  then show ?case by simp
next
  case (6 w acts out trav s)
  let ?s2 = "run_acts acts (pushTarget (Some w) s)"
  from 6 [of "pushTarget (Some w) s"]
  have a: "targetStack ?s2 = targetStack s @ [Some w]" "cb_calls ?s2 = cb_calls s"
    "\<And>x. wflags (watchers ?s2 x) = wflags (watchers s x)"
    by simp_all
  show ?case
    unfolding snd_get_eq Let_def
    using a by (cases out) (simp_all add: wflags_cleanupDeps wflags_depend_all)
qed

lemma get_flags:
  "deep (watchers (snd (get w sc s)) x) = deep (watchers s x)"
  "user (watchers (snd (get w sc s)) x) = user (watchers s x)"
  using get_frame(3) [of w sc s] by (auto simp: wflags_def)

lemma run_acts_flags:
  "deep (watchers (run_acts as s) x) = deep (watchers s x)"
  "user (watchers (run_acts as s) x) = user (watchers s x)"
  using get_frame(2) [of as s] by (auto simp: wflags_def)

lemma get_self_fields:
  assumes "script_free w sc"
  shows "wvalue (watchers (snd (get w sc s)) w) = wvalue (watchers s w)"
    and "active (watchers (snd (get w sc s)) w) = active (watchers s w)"
    and "dirty (watchers (snd (get w sc s)) w) = dirty (watchers s w)"
proof -
  obtain acts out trav where sc: "sc = Script acts out trav" by (cases sc)
  define s1 where "s1 = pushTarget (Some w) s"
  define s2 where "s2 = run_acts acts s1"
  have t1: "target s1 = Some w" by (simp add: s1_def)
  have "target_ok s1 \<and> acts_free w acts" using assms by (simp add: s1_def sc)
  with run_acts_view(2) [of s1 w acts]
  have v2: "wview w s2 = wview w (depend_all (touched acts) s1)"
    by (simp_all add: s2_def t1)
  have keep: "wvalue (watchers (depend_all ds s0) w) = wvalue (watchers s0 w) \<and>
      active (watchers (depend_all ds s0) w) = active (watchers s0 w) \<and>
      dirty (watchers (depend_all ds s0) w) = dirty (watchers s0 w)" for ds s0
  proof (induction ds arbitrary: s0)
    case Nil
    then show ?case by simp
  next
    case (Cons d ds)
    have "wvalue (watchers (depend d s0) w) = wvalue (watchers s0 w) \<and>
      active (watchers (depend d s0) w) = active (watchers s0 w) \<and>
      dirty (watchers (depend d s0) w) = dirty (watchers s0 w)"
      by (cases "target s0") (simp_all add: depend_watchers)
    with Cons [of "depend d s0"] show ?case by simp
  qed
  have w2: "watchers s2 w = watchers (depend_all (touched acts) s1) w"
    using v2 by (simp add: wview_def)
  have k2: "wvalue (watchers s2 w) = wvalue (watchers s w)"
      "active (watchers s2 w) = active (watchers s w)"
      "dirty (watchers s2 w) = dirty (watchers s w)"
    unfolding w2 using keep [of "touched acts" s1] by (simp_all add: s1_def)
  show "wvalue (watchers (snd (get w sc s)) w) = wvalue (watchers s w)"
    and "active (watchers (snd (get w sc s)) w) = active (watchers s w)"
    and "dirty (watchers (snd (get w sc s)) w) = dirty (watchers s w)"
    unfolding sc snd_get_eq Let_def
    using k2 keep
    by (cases out; simp add: watchers_cleanupDeps s2_def s1_def)+
qed

lemma strict_eq_Undefined [simp]: "strict_eq Undefined v \<longleftrightarrow> v = Undefined"
  by (cases v) simp_all

lemma strict_eq_NaN_right [simp]: "strict_eq v NaN = False"
  by (cases v) simp_all

text \<open>
  Claim C4, as amended. When an active watcher's \<open>get\<close> returns \<open>v\<close>, \<open>run\<close>
  invokes the callback, once and with (\<open>v\<close>, previous value), exactly when
  \<open>v !== this.value\<close> or \<open>v\<close> is an object or the watcher is deep, and then stores
  \<open>v\<close>; otherwise it changes nothing after \<open>get\<close>. The comparison is the plain
  strict inequality: a \<open>NaN\<close> result always fires, also when the previous value was
  \<open>NaN\<close>. An inactive watcher's \<open>run\<close> does nothing.
\<close>

theorem run_invokes_callback:
  assumes "get w sc s = (Inr v, s1)"
  shows "(active (watchers s w) \<longrightarrow>
          (let old = wvalue (watchers s1 w);
               fire = (\<not> strict_eq v old \<or> isObject v \<or> deep (watchers s w))
           in cb_calls (snd (run w sc cbt s)) = cb_calls s @ (if fire then [(w, v, old)] else []) \<and>
              wvalue (watchers (snd (run w sc cbt s)) w) = (if fire then v else old) \<and>
              (\<not> fire \<longrightarrow> run w sc cbt s = (Inr (), s1)) \<and>
              (v = NaN \<longrightarrow> fire) \<and>
              (script_free w sc \<longrightarrow> old = wvalue (watchers s w)))) \<and>
         (\<not> active (watchers s w) \<longrightarrow> run w sc cbt s = (Inr (), s))"
proof -
  have s1: "s1 = snd (get w sc s)" using assms by simp
  have dp: "deep (watchers s1 w) = deep (watchers s w)"
    unfolding s1 by (rule get_flags)
  have cb: "cb_calls s1 = cb_calls s"
    unfolding s1 using get_frame(3) [of w sc s] by simp
  have old: "script_free w sc \<Longrightarrow> wvalue (watchers s1 w) = wvalue (watchers s w)"
    unfolding s1 by (rule get_self_fields)
  show ?thesis
    using assms dp cb old
    by (auto simp: run_def Let_def handleError_def split: option.splits)
qed

lemma nan_state_eq:
  "nan_state =
     \<lparr>subs = (\<lambda>_. [])(10 := [1]),
      watchers = (\<lambda>_. fresh_watcher)
         (1 := fresh_watcher\<lparr>deps := [10], depIds := {10}, wvalue := NaN\<rparr>),
      target = None, targetStack = [], handled = [], cb_calls = [(1, NaN, Undefined)],
      trace = [(Some 1, 10)]\<rparr>"
  by (simp add: nan_state_def nan_script_def run_def init_state_def fresh_watcher_def Let_def
        pushTarget_def popTarget_def depend_def addDep_def addSub_def upd_watcher_def
        cleanupDeps_def removeSub_def)

lemma get_nan_state:
  "get 1 nan_script nan_state = (Inr NaN, nan_state\<lparr>trace := [(Some 1, 10), (Some 1, 10)]\<rparr>)"
  unfolding nan_state_eq
  by (simp add: nan_script_def fresh_watcher_def Let_def
        pushTarget_def popTarget_def depend_def addDep_def addSub_def upd_watcher_def
        cleanupDeps_def removeSub_def)

lemma run_nan_state:
  "run 1 nan_script None nan_state =
     (Inr (), nan_state\<lparr>trace := [(Some 1, 10), (Some 1, 10)],
                         cb_calls := [(1, NaN, Undefined), (1, NaN, NaN)]\<rparr>)"
  unfolding run_def get_nan_state
  unfolding nan_state_eq
  by (simp add: Let_def upd_watcher_def)

text \<open>
  Claim C4 as stated fails: the previous value and the new one are both \<open>NaN\<close>,
  the watcher is active, not lazy and not deep, and the callback is invoked again.
\<close>

theorem run_nan_counterexample:
  "active (watchers nan_state 1) \<and> \<not> lazy (watchers nan_state 1) \<and>
   \<not> deep (watchers nan_state 1) \<and> wvalue (watchers nan_state 1) = NaN \<and>
   fst (get 1 nan_script nan_state) = Inr NaN \<and> \<not> isObject NaN \<and>
   cb_calls (snd (run 1 nan_script None nan_state)) = [(1, NaN, Undefined), (1, NaN, NaN)]"
  unfolding run_nan_state get_nan_state by (simp add: nan_state_eq)

theorem run_invokes_callback_witness:
  "get 1 nan_script nan_state = (Inr NaN, nan_state\<lparr>trace := [(Some 1, 10), (Some 1, 10)]\<rparr>) \<and>
   active (watchers nan_state 1) \<and> script_free 1 nan_script \<and>
   cb_calls (snd (run 1 nan_script None nan_state)) = cb_calls nan_state @ [(1, NaN, NaN)] \<and>
   wvalue (watchers (snd (run 1 nan_script None nan_state)) 1) = NaN"
proof -
  have a: "active (watchers nan_state 1)" by (simp add: nan_state_eq)
  have f: "script_free 1 nan_script" by (simp add: nan_script_def)
  have w: "wvalue (watchers nan_state 1) = NaN" by (simp add: nan_state_eq)
  from run_invokes_callback [OF get_nan_state, of None] a f w
  show ?thesis using get_nan_state by (simp add: Let_def)
qed

text \<open>
  Claim C6, as amended. When the getter throws \<open>e\<close>: a user watcher's \<open>get\<close>
  reports \<open>e\<close> to \<open>handleError\<close> and returns \<open>undefined\<close>, a non-user watcher's
  \<open>get\<close> throws \<open>e\<close> to its caller; either way \<open>traverse\<close> (for a deep
  watcher), \<open>popTarget\<close> and \<open>cleanupDeps\<close> run, the target stack is as before and
  nothing is left newly collected. For a non-user watcher \<open>run\<close> and \<open>evaluate\<close>
  pass the exception on. For a user watcher the returned \<open>undefined\<close> is treated as
  the computed value: \<open>run\<close> stores it and invokes the callback with
  (\<open>undefined\<close>, previous value) unless the previous value was \<open>undefined\<close> and the
  watcher is not deep, and \<open>evaluate\<close> stores it.
\<close>

theorem getter_throw_policy:
  "(let sc = Script acts (Throws e) trav;
        s2 = run_acts acts (pushTarget (Some w) s);
        s3 = (if user (watchers s w) then handleError e s2 else s2);
        s4 = (if deep (watchers s w) then depend_all (trav Undefined) s3 else s3);
        s' = snd (get w sc s);
        old = wvalue (watchers s' w)
    in fst (get w sc s) = (if user (watchers s w) then Inr Undefined else Inl e) \<and>
       s' = cleanupDeps w (popTarget s4) \<and>
       handled s' = handled s2 @ (if user (watchers s w) then [e] else []) \<and>
       targetStack s' = targetStack s \<and>
       newDeps (watchers s' w) = [] \<and> newDepIds (watchers s' w) = {} \<and>
       (active (watchers s w) \<and> \<not> user (watchers s w) \<longrightarrow> run w sc cbt s = (Inl e, s')) \<and>
       (\<not> user (watchers s w) \<longrightarrow> evaluate w sc s = (Inl e, s')) \<and>
       (active (watchers s w) \<and> user (watchers s w) \<longrightarrow>
          fst (run w sc cbt s) = Inr () \<and>
          wvalue (watchers (snd (run w sc cbt s)) w) = Undefined \<and>
          cb_calls (snd (run w sc cbt s)) =
            cb_calls s @ (if old \<noteq> Undefined \<or> deep (watchers s w)
                          then [(w, Undefined, old)] else [])) \<and>
       (user (watchers s w) \<longrightarrow>
          fst (evaluate w sc s) = Inr () \<and>
          wvalue (watchers (snd (evaluate w sc s)) w) = Undefined))"
proof -
  let ?sc = "Script acts (Throws e) trav"
  let ?s2 = "run_acts acts (pushTarget (Some w) s)"
  let ?s3 = "if user (watchers s w) then handleError e ?s2 else ?s2"
  let ?s4 = "if deep (watchers s w) then depend_all (trav Undefined) ?s3 else ?s3"
  obtain res s' where g: "get w ?sc s = (res, s')" by (cases "get w ?sc s")
  have fst_g: "fst (get w ?sc s) = res" and snd_g: "snd (get w ?sc s) = s'"
    unfolding g by simp_all
  have u2: "user (watchers ?s2 w) = user (watchers s w)"
    and d2: "deep (watchers ?s2 w) = deep (watchers s w)"
    by (simp_all add: run_acts_flags)
  have res: "res = (if user (watchers s w) then Inr Undefined else Inl e)"
    unfolding fst_g [symmetric] fst_get_eq using u2 by simp
  have s': "s' = cleanupDeps w (popTarget ?s4)"
    unfolding snd_g [symmetric] snd_get_eq Let_def using u2 d2 by simp
  have h: "handled s' = handled ?s2 @ (if user (watchers s w) then [e] else [])"
    unfolding s' by simp
  have st: "targetStack s' = targetStack s" and cb: "cb_calls s' = cb_calls s"
    using get_frame(3) [of w ?sc s] unfolding snd_g by simp_all
  have nd: "newDeps (watchers s' w) = []" "newDepIds (watchers s' w) = {}"
    unfolding s' by (simp_all add: watchers_cleanupDeps)
  have dp: "deep (watchers s' w) = deep (watchers s w)"
    and us: "user (watchers s' w) = user (watchers s w)"
    using get_flags [of w ?sc s w] unfolding snd_g by simp_all
  have r1: "active (watchers s w) \<and> \<not> user (watchers s w) \<longrightarrow> run w ?sc cbt s = (Inl e, s')"
    unfolding run_def g using res by simp
  have e1: "\<not> user (watchers s w) \<longrightarrow> evaluate w ?sc s = (Inl e, s')"
    unfolding evaluate_def g using res by simp
  have r2: "active (watchers s w) \<and> user (watchers s w) \<longrightarrow>
          fst (run w ?sc cbt s) = Inr () \<and>
          wvalue (watchers (snd (run w ?sc cbt s)) w) = Undefined \<and>
          cb_calls (snd (run w ?sc cbt s)) =
            cb_calls s @ (if wvalue (watchers s' w) \<noteq> Undefined \<or> deep (watchers s w)
                          then [(w, Undefined, wvalue (watchers s' w))] else [])"
    unfolding run_def g using res dp us cb
    by (auto simp: Let_def handleError_def split: option.splits)
  have e2: "user (watchers s w) \<longrightarrow>
          fst (evaluate w ?sc s) = Inr () \<and>
          wvalue (watchers (snd (evaluate w ?sc s)) w) = Undefined"
    unfolding evaluate_def g using res by simp
  have f: "fst (get w ?sc s) = (if user (watchers s w) then Inr Undefined else Inl e)"
    unfolding fst_g by (rule res)
  show ?thesis
    unfolding Let_def snd_g
    using f s' h st nd r1 e1 r2 e2 by blast
qed

lemma get_user_state:
  "get 1 throwing user_state =
     (Inr Undefined,
      \<lparr>subs = (\<lambda>_. [])(10 := [1]),
       watchers = (\<lambda>_. fresh_watcher)
         (1 := fresh_watcher\<lparr>user := True, deps := [10], depIds := {10}, wvalue := Num 1\<rparr>),
       target = None, targetStack = [], handled = [Str ''boom''], cb_calls = [],
       trace = [(Some 1, 10)]\<rparr>)"
  by (simp add: user_state_def throwing_def init_state_def fresh_watcher_def Let_def
        pushTarget_def popTarget_def depend_def addDep_def addSub_def upd_watcher_def
        cleanupDeps_def removeSub_def handleError_def)

text \<open>
  Claim C6 as stated fails: the getter of a user watcher with value 1 throws, and
  \<open>run\<close> replaces the value by \<open>undefined\<close> and invokes the callback.
\<close>

theorem user_getter_throw_counterexample:
  "user (watchers user_state 1) \<and> active (watchers user_state 1) \<and>
   wvalue (watchers user_state 1) = Num 1 \<and>
   fst (run 1 throwing None user_state) = Inr () \<and>
   handled (snd (run 1 throwing None user_state)) = [Str ''boom''] \<and>
   wvalue (watchers (snd (run 1 throwing None user_state)) 1) = Undefined \<and>
   cb_calls (snd (run 1 throwing None user_state)) = [(1, Undefined, Num 1)]"
proof -
  have a: "user (watchers user_state 1)" "active (watchers user_state 1)"
    "wvalue (watchers user_state 1) = Num 1"
    by (simp_all add: user_state_def init_state_def)
  have r: "fst (run 1 throwing None user_state) = Inr () \<and>
   handled (snd (run 1 throwing None user_state)) = [Str ''boom''] \<and>
   wvalue (watchers (snd (run 1 throwing None user_state)) 1) = Undefined \<and>
   cb_calls (snd (run 1 throwing None user_state)) = [(1, Undefined, Num 1)]"
    unfolding run_def get_user_state using a(2)
    by (simp add: Let_def upd_watcher_def)
  show ?thesis using a r by simp
qed

theorem getter_throw_policy_witness:
  "active (watchers user_state 1) \<and> user (watchers user_state 1) \<and>
   fst (get 1 throwing user_state) = Inr Undefined \<and>
   targetStack (snd (get 1 throwing user_state)) = targetStack user_state \<and>
   newDeps (watchers (snd (get 1 throwing user_state)) 1) = [] \<and>
   fst (run 1 throwing None user_state) = Inr () \<and>
   wvalue (watchers (snd (run 1 throwing None user_state)) 1) = Undefined \<and>
   active (watchers init_state 1) \<and> \<not> user (watchers init_state 1) \<and>
   run 1 throwing None init_state = (Inl (Str ''boom''), snd (get 1 throwing init_state))"
proof -
  have a: "user (watchers user_state 1)" "active (watchers user_state 1)"
    by (simp_all add: user_state_def init_state_def)
  have b: "\<not> user (watchers init_state 1)" "active (watchers init_state 1)"
    by (simp_all add: init_state_def)
  note th1 = getter_throw_policy [of "[Depend 10]" "Str ''boom''" "\<lambda>_. []" 1 user_state None,
      unfolded Let_def, folded throwing_def]
  note th2 = getter_throw_policy [of "[Depend 10]" "Str ''boom''" "\<lambda>_. []" 1 init_state None,
      unfolded Let_def, folded throwing_def]
  from th1 have c1: "fst (get 1 throwing user_state)
      = (if user (watchers user_state 1) then Inr Undefined else Inl (Str ''boom''))"
    and c2: "targetStack (snd (get 1 throwing user_state)) = targetStack user_state"
    and c3: "newDeps (watchers (snd (get 1 throwing user_state)) 1) = []"
    and c4: "active (watchers user_state 1) \<and> user (watchers user_state 1) \<longrightarrow>
          fst (run 1 throwing None user_state) = Inr () \<and>
          wvalue (watchers (snd (run 1 throwing None user_state)) 1) = Undefined \<and>
          cb_calls (snd (run 1 throwing None user_state)) =
            cb_calls user_state @
              (if wvalue (watchers (snd (get 1 throwing user_state)) 1) \<noteq> Undefined
                    \<or> deep (watchers user_state 1)
               then [(1, Undefined, wvalue (watchers (snd (get 1 throwing user_state)) 1))]
               else [])"
    by blast+
  from th2 have c5: "active (watchers init_state 1) \<and> \<not> user (watchers init_state 1) \<longrightarrow>
      run 1 throwing None init_state = (Inl (Str ''boom''), snd (get 1 throwing init_state))"
    by blast
  from c1 a have d1: "fst (get 1 throwing user_state) = Inr Undefined" by simp
  from c4 a have d4: "fst (run 1 throwing None user_state) = Inr ()"
    "wvalue (watchers (snd (run 1 throwing None user_state)) 1) = Undefined"
    by blast+
  from c5 b have d5: "run 1 throwing None init_state
      = (Inl (Str ''boom''), snd (get 1 throwing init_state))"
    by blast
  show ?thesis
    using a b d1 c2 c3 d4 d5 by blast
qed

section \<open>Properties of notification\<close>

lemma notify_loop_steps:
  "notify_loop upd ws s = (invoked, thrown, s') \<Longrightarrow>
     invoked = take (length invoked) ws \<and>
     s' = foldl (\<lambda>s w. snd (upd w s)) s invoked \<and>
     (\<forall>j<length invoked. fst (upd (ws ! j) (foldl (\<lambda>s w. snd (upd w s)) s (take j ws)))
          = (if Suc j = length invoked then thrown else None)) \<and>
     (thrown = None \<longrightarrow> invoked = ws) \<and>
     (thrown \<noteq> None \<longrightarrow> invoked \<noteq> [])"
proof (induction ws arbitrary: s invoked thrown s')
  case Nil
  then show ?case by simp
next
  case (Cons w ws)
  obtain r s1 where u: "upd w s = (r, s1)" by (cases "upd w s")
  show ?case
  proof (cases r)
    case (Some e)
    with Cons.prems u have "invoked = [w]" "thrown = Some e" "s' = s1" by simp_all
    with u Some show ?thesis by simp
  next
    case None
    obtain inv' thr' s2 where r: "notify_loop upd ws s1 = (inv', thr', s2)"
      by (cases "notify_loop upd ws s1") auto
    from Cons.prems u None r have eq: "invoked = w # inv'" "thrown = thr'" "s' = s2"
      by simp_all
    note ih = Cons.IH [OF r]
    have a: "invoked = take (length invoked) (w # ws)"
      using ih eq by simp
    have b: "s' = foldl (\<lambda>s w. snd (upd w s)) s invoked"
      using ih eq u by simp
    have c: "fst (upd ((w # ws) ! j) (foldl (\<lambda>s w. snd (upd w s)) s (take j (w # ws))))
          = (if Suc j = length invoked then thrown else None)" if "j < length invoked" for j
    proof (cases j)
      case 0
      have "inv' = [] \<longrightarrow> thr' = None" using ih by blast
      with 0 u None eq show ?thesis by auto
    next
      case (Suc k)
      with that eq have "k < length inv'" by simp
      with ih have "fst (upd (ws ! k) (foldl (\<lambda>s w. snd (upd w s)) s1 (take k ws)))
          = (if Suc k = length inv' then thr' else None)" by blast
      with Suc u eq show ?thesis by simp
    qed
    have d: "thrown = None \<longrightarrow> invoked = w # ws" "thrown \<noteq> None \<longrightarrow> invoked \<noteq> []"
      using ih eq by simp_all
    from a b c d show ?thesis by blast
  qed
qed

text \<open>
  Claim C8, as amended. \<open>notify\<close> invokes \<open>update()\<close> on the elements of a copy
  of the subscriber array taken before the loop, in the copy's order, each once and each
  on the state its predecessors left, whatever the updates do to the subscriber arrays.
  When no \<open>update()\<close> throws, the watchers invoked are exactly the copy; when one
  throws, its exception leaves \<open>notify\<close> and the subscribers after it in the copy
  are not invoked. The copy is sorted ascending by watcher id in a non-production build
  with \<open>config.async\<close> false, and is in subscription order in every other
  configuration.
\<close>

theorem notify_snapshot:
  "(let snap = (if \<not> production cfg \<and> \<not> async cfg then sort (subs s d) else subs s d);
        step = (\<lambda>s w. snd (upd w s));
        invoked = fst (notify cfg upd d s);
        thrown = fst (snd (notify cfg upd d s));
        s' = snd (snd (notify cfg upd d s))
    in invoked = take (length invoked) snap \<and>
       s' = foldl step s invoked \<and>
       (\<forall>j<length invoked. fst (upd (snap ! j) (foldl step s (take j snap)))
            = (if Suc j = length invoked then thrown else None)) \<and>
       (thrown = None \<longrightarrow> invoked = snap) \<and>
       (thrown \<noteq> None \<longrightarrow> invoked \<noteq> []) \<and>
       mset snap = mset (subs s d) \<and>
       (\<not> production cfg \<and> \<not> async cfg \<longrightarrow> sorted snap) \<and>
       (production cfg \<or> async cfg \<longrightarrow> snap = subs s d))"
proof -
  define snap where "snap = (if \<not> production cfg \<and> \<not> async cfg then sort (subs s d) else subs s d)"
  obtain invoked thrown s' where r: "notify_loop upd snap s = (invoked, thrown, s')"
    by (cases "notify_loop upd snap s") auto
  have n: "notify cfg upd d s = (invoked, thrown, s')"
    using r by (simp add: notify_def snap_def Let_def)
  have m: "mset snap = mset (subs s d)"
    "\<not> production cfg \<and> \<not> async cfg \<longrightarrow> sorted snap"
    "production cfg \<or> async cfg \<longrightarrow> snap = subs s d"
    by (auto simp: snap_def)
  show ?thesis
    unfolding Let_def snap_def [symmetric] n fst_conv snd_conv
    using notify_loop_steps [OF r] m by (intro conjI) blast+
qed

text \<open>
  Claim C8 as stated fails when an \<open>update()\<close> throws: watchers 3 and 2 are in the
  copy, \<open>run()\<close> of the synchronous watcher 2 rethrows the exception of its getter,
  and \<open>update()\<close> of watcher 3 is never invoked.
\<close>

theorem notify_throwing_counterexample:
  "subs sync_state 7 = [3, 2] \<and>
   fst (notify \<lparr>production = False, async = False\<rparr> run_update 7 sync_state) = [2] \<and>
   fst (snd (notify \<lparr>production = False, async = False\<rparr> run_update 7 sync_state))
     = Some (Str ''boom'') \<and>
   3 \<in> set (subs sync_state 7) \<and>
   3 \<notin> set (fst (notify \<lparr>production = False, async = False\<rparr> run_update 7 sync_state))"
proof -
  have a: "subs sync_state 7 = [3, 2]" by (simp add: sync_state_def init_state_def)
  have f: "sync (watchers sync_state 2)" "active (watchers sync_state 2)"
    "\<not> lazy (watchers sync_state 2)" "\<not> user (watchers (run_acts [Depend 10] (pushTarget (Some 2) sync_state)) 2)"
    by (simp_all add: sync_state_def init_state_def fresh_watcher_def depend_def addDep_def
          pushTarget_def Let_def upd_watcher_def addSub_def)
  have u: "fst (run_update 2 sync_state) = Some (Str ''boom'')"
    using f by (simp add: run_update_def update_def run_def throwing_def Let_def split: prod.splits)
  have n: "notify \<lparr>production = False, async = False\<rparr> run_update 7 sync_state
      = ([2], Some (Str ''boom''), snd (run_update 2 sync_state))"
    using u unfolding notify_def a by (cases "run_update 2 sync_state") (simp add: Let_def)
  show ?thesis unfolding n using a by simp
qed

theorem notify_snapshot_witness:
  "\<not> production \<lparr>production = False, async = False\<rparr> \<and>
   \<not> async \<lparr>production = False, async = False\<rparr> \<and>
   fst (snd (notify \<lparr>production = False, async = False\<rparr> meddling 7 notify_state)) = None \<and>
   fst (notify \<lparr>production = False, async = False\<rparr> meddling 7 notify_state) = [2, 3] \<and>
   subs (snd (snd (notify \<lparr>production = False, async = False\<rparr> meddling 7 notify_state))) 7
     = [3, 9, 9]"
proof -
  have a: "fst (snd (notify \<lparr>production = False, async = False\<rparr> meddling 7 notify_state)) = None"
    "subs (snd (snd (notify \<lparr>production = False, async = False\<rparr> meddling 7 notify_state))) 7
     = [3, 9, 9]"
    "subs notify_state 7 = [3, 2]"
    by (simp_all add: notify_def notify_state_def meddling_def)
  note th = notify_snapshot [of "\<lparr>production = False, async = False\<rparr>" notify_state 7 meddling,
      unfolded Let_def]
  from th have "fst (snd (notify \<lparr>production = False, async = False\<rparr> meddling 7 notify_state)) = None
      \<longrightarrow> fst (notify \<lparr>production = False, async = False\<rparr> meddling 7 notify_state)
          = (if \<not> production \<lparr>production = False, async = False\<rparr> \<and>
                \<not> async \<lparr>production = False, async = False\<rparr>
             then sort (subs notify_state 7) else subs notify_state 7)"
    by blast
  with a show ?thesis by simp
qed

section \<open>Properties of reactive properties\<close>

declare observe.simps [simp del]

declare defineReactive.simps [simp del]

lemma grows_refl [simp]: "grows st st"
  by (simp add: grows_def)

lemma grows_trans: "grows s1 s2 \<Longrightarrow> grows s2 s3 \<Longrightarrow> grows s1 s3"
  unfolding grows_def by auto

lemma grows_unobserved: "grows st st' \<Longrightarrow> unobserved st' \<subseteq> unobserved st"
  unfolding grows_def unobserved_def by auto

lemma grows_define_property:
  "grows st (st\<lparr>heap := (heap st)(a := define_property key c (heap st a))\<rparr>)"
  by (simp add: grows_def define_property_def)

lemma grows_new_dep: "grows st (st\<lparr>dep_uid := dep_uid st + 1\<rparr>)"
  by (simp add: grows_def)

lemma grows_attach:
  "grows st (st\<lparr>dep_uid := dep_uid st + 1, heap := (heap st)(a := (heap st a)\<lparr>ob := Some x\<rparr>)\<rparr>)"
  by (simp add: grows_def)

lemma grows_root:
  "grows st (st\<lparr>heap := (heap st)(a := (heap st a)\<lparr>ob := map_option f (ob (heap st a))\<rparr>)\<rparr>)"
  by (simp add: grows_def)

lemma defineReactive_grows:
  assumes F: "\<And>v st r st'. observe n v False st = Some (r, st') \<Longrightarrow> grows st st'"
    and d: "defineReactive n a key va cs sh st = Some st'"
  shows "grows st st'"
proof -
  define st1 where "st1 = st\<lparr>dep_uid := dep_uid st + 1\<rparr>"
  have g1: "grows st st1" unfolding st1_def by (rule grows_new_dep)
  show ?thesis
  proof (cases "case props (heap st1 a) key of Some p \<Rightarrow> \<not> prop_configurable p | None \<Rightarrow> False")
    case True
    with d have "st' = st1"
      by (simp add: defineReactive.simps Let_def st1_def)
    with g1 show ?thesis by simp
  next
    case False
    define val where "val = (case va of
                        Some v \<Rightarrow> v
                      | None \<Rightarrow> if \<not> has_getter (props (heap st1 a) key) \<or> has_setter (props (heap st1 a) key)
                                then (case props (heap st1 a) key of Some p \<Rightarrow> call_getter p | None \<Rightarrow> Undefined)
                                else Undefined)"
    from d False
    have "(case (if sh then Some (None, st1) else observe n val False st1) of
             None \<Rightarrow> None
           | Some (co, st2) \<Rightarrow>
               Some (st2\<lparr>heap := (heap st2)
                 (a := define_property key (Cell val co (dep_uid st) sh cs (props (heap st1 a) key))
                         (heap st2 a))\<rparr>)) = Some st'"
      unfolding defineReactive.simps [of n a key va cs sh st] Let_def st1_def val_def by simp
    then obtain co st2 where
      o: "(if sh then Some (None, st1) else observe n val False st1) = Some (co, st2)"
      and e: "st' = st2\<lparr>heap := (heap st2)
                (a := define_property key (Cell val co (dep_uid st) sh cs (props (heap st1 a) key)) (heap st2 a))\<rparr>"
      by (cases "if sh then Some (None, st1) else observe n val False st1") auto
    have "grows st1 st2"
      using o F by (cases sh) auto
    with g1 have "grows st st2" by (rule grows_trans)
    then show ?thesis unfolding e using grows_define_property by (rule grows_trans)
  qed
qed

lemma walk_grows:
  assumes F: "\<And>v st r st'. observe n v False st = Some (r, st') \<Longrightarrow> grows st st'"
  shows "walk n a ks st = Some st' \<Longrightarrow> grows st st'"
proof (induction ks arbitrary: st)
  case Nil
  then show ?case by simp
next
  case (Cons k ks)
  from Cons.prems obtain st1 where d: "defineReactive n a k None False False st = Some st1"
    and w: "walk n a ks st1 = Some st'"
    by (auto split: option.splits)
  from d have "grows st st1" by (rule defineReactive_grows [rotated]) (erule F)
  moreover from w have "grows st1 st'" by (rule Cons.IH)
  ultimately show ?case by (rule grows_trans)
qed

lemma observeArray_grows:
  assumes F: "\<And>v st r st'. observe n v False st = Some (r, st') \<Longrightarrow> grows st st'"
  shows "observeArray n a i k st = Some st' \<Longrightarrow> grows st st'"
proof (induction k arbitrary: i st)
  case 0
  then show ?case by simp
next
  case (Suc k)
  from Suc.prems obtain r st1 where
    o: "observe n (if i < length (elems (heap st a)) then elems (heap st a) ! i else Undefined) False st
          = Some (r, st1)"
    and w: "observeArray n a (Suc i) k st1 = Some st'"
    by (auto simp: Let_def split: option.splits)
  from o have "grows st st1" by (rule F)
  moreover from w have "grows st1 st'" by (rule Suc.IH)
  ultimately show ?case by (rule grows_trans)
qed

lemma observe_unfold:
  "observe n (Obj a) root st = Some (r, st') \<Longrightarrow>
     (kind (heap st a) = VNodeObj \<and> r = None \<and> st' = st) \<or>
     (kind (heap st a) \<noteq> VNodeObj \<and>
      (\<exists>st1. (if ob (heap st a) \<noteq> None then r = Some a \<and> st1 = st
              else if shouldObserve st \<and> \<not> serverRendering st \<and>
                      (kind (heap st a) = ArrayObj \<or> kind (heap st a) = PlainObject) \<and>
                      extensible (heap st a) \<and> \<not> isVue (heap st a)
              then r = Some a \<and> new_Observer n a st = Some st1
              else r = None \<and> st1 = st) \<and>
             st' = (if root \<and> r \<noteq> None
                    then st1\<lparr>heap := (heap st1)(a := (heap st1 a)
                           \<lparr>ob := map_option (\<lambda>b. b\<lparr>vmCount := vmCount b + 1\<rparr>) (ob (heap st1 a))\<rparr>)\<rparr>
                    else st1)))"
  by (auto simp: observe.simps Let_def split: if_splits option.splits)

lemma observe_grows_step:
  assumes N: "\<And>a st st1. new_Observer n a st = Some st1 \<Longrightarrow> grows st st1"
    and o: "observe n v root st = Some (r, st')"
  shows "grows st st'"
proof (cases v)
  case (Obj a)
  from observe_unfold [OF o [unfolded Obj]]
  have "\<exists>st1. grows st st1 \<and> grows st1 st'"
  proof (elim disjE conjE exE)
    assume "st' = st"
    then have "grows st st \<and> grows st st'" by simp
    then show ?thesis by (rule exI)
  next
    fix st1
    assume c: "if ob (heap st a) \<noteq> None then r = Some a \<and> st1 = st
              else if shouldObserve st \<and> \<not> serverRendering st \<and>
                      (kind (heap st a) = ArrayObj \<or> kind (heap st a) = PlainObject) \<and>
                      extensible (heap st a) \<and> \<not> isVue (heap st a)
              then r = Some a \<and> new_Observer n a st = Some st1
              else r = None \<and> st1 = st"
      and e: "st' = (if root \<and> r \<noteq> None
                    then st1\<lparr>heap := (heap st1)(a := (heap st1 a)
                           \<lparr>ob := map_option (\<lambda>b. b\<lparr>vmCount := vmCount b + 1\<rparr>) (ob (heap st1 a))\<rparr>)\<rparr>
                    else st1)"
    have "grows st st1" using c N by (auto split: if_splits)
    moreover have "grows st1 st'" unfolding e by (simp add: grows_def)
    ultimately show ?thesis by blast
  qed
  then show ?thesis by (blast intro: grows_trans)
qed (use o in \<open>auto simp: observe.simps\<close>)

lemma new_Observer_grows:
  assumes F: "\<And>v st r st'. observe n v False st = Some (r, st') \<Longrightarrow> grows st st'"
    and c: "new_Observer (Suc n) a st = Some st1"
  shows "grows st st1"
proof -
  define s0 where "s0 = st\<lparr>dep_uid := dep_uid st + 1,
                 heap := (heap st)(a := (heap st a)\<lparr>ob := Some \<lparr>odep = dep_uid st, vmCount = 0\<rparr>\<rparr>)\<rparr>"
  have g0: "grows st s0" unfolding s0_def by (rule grows_attach)
  from c have "new_Observer (Suc n) a st
      = (if kind (heap s0 a) = ArrayObj
         then observeArray n a 0 (length (elems (heap s0 a))) s0
         else walk n a (okeys (heap s0 a)) s0)"
    unfolding s0_def by (simp only: new_Observer.simps Let_def)
  with c have "observeArray n a 0 (length (elems (heap s0 a))) s0 = Some st1 \<or>
                  walk n a (okeys (heap s0 a)) s0 = Some st1"
    by (simp split: if_splits)
  then have "grows s0 st1"
  proof
    assume "observeArray n a 0 (length (elems (heap s0 a))) s0 = Some st1"
    then show ?thesis by (rule observeArray_grows [rotated]) (erule F)
  next
    assume "walk n a (okeys (heap s0 a)) s0 = Some st1"
    then show ?thesis by (rule walk_grows [rotated]) (erule F)
  qed
  with g0 show ?thesis by (rule grows_trans)
qed

lemma observe_grows: "observe n v root st = Some (r, st') \<Longrightarrow> grows st st'"
proof (induction n arbitrary: v root st r st')
  case 0
  show ?case using _ "0.prems" by (rule observe_grows_step) simp
next
  case (Suc n)
  show ?case using _ Suc.prems
  proof (rule observe_grows_step)
    fix a st st1
    assume "new_Observer (Suc n) a st = Some st1"
    then show "grows st st1" by (rule new_Observer_grows [rotated]) (erule Suc.IH)
  qed
qed

lemma observe_keeps:
  "observe n v root st = Some (r, st') \<Longrightarrow> finite (unobserved st) \<Longrightarrow>
     finite (unobserved st') \<and> card (unobserved st') \<le> card (unobserved st)"
  using grows_unobserved [OF observe_grows] by (meson card_mono finite_subset)

lemma defineReactive_frame:
  assumes "defineReactive n a key va cs sh st = Some st'"
  shows "grows st st'"
  using assms by (rule defineReactive_grows [rotated]) (erule observe_grows)



lemma grows_card:
  "grows st st' \<Longrightarrow> finite (unobserved st) \<Longrightarrow> card (unobserved st) \<le> n \<Longrightarrow>
     finite (unobserved st') \<and> card (unobserved st') \<le> n"
  using grows_unobserved [of st st'] by (meson card_mono finite_subset le_trans)

lemma unobserved_new_dep [simp]: "unobserved (st\<lparr>dep_uid := d\<rparr>) = unobserved st"
  by (simp add: unobserved_def)

lemma unobserved_customSetterCalls [simp]: "unobserved (st\<lparr>customSetterCalls := d\<rparr>) = unobserved st"
  by (simp add: unobserved_def)

lemma unobserved_notified [simp]: "unobserved (st\<lparr>notified := d\<rparr>) = unobserved st"
  by (simp add: unobserved_def)

lemma defineReactive_total:
  assumes T: "\<And>v st. finite (unobserved st) \<Longrightarrow> card (unobserved st) \<le> n
                \<Longrightarrow> observe n v False st \<noteq> None"
    and f: "finite (unobserved st)" and c: "card (unobserved st) \<le> n"
  shows "defineReactive n a key va cs sh st \<noteq> None"
proof -
  define st1 where "st1 = st\<lparr>dep_uid := dep_uid st + 1\<rparr>"
  define val where "val = (case va of
                        Some v \<Rightarrow> v
                      | None \<Rightarrow> if \<not> has_getter (props (heap st1 a) key) \<or> has_setter (props (heap st1 a) key)
                                then (case props (heap st1 a) key of Some p \<Rightarrow> call_getter p | None \<Rightarrow> Undefined)
                                else Undefined)"
  define C where "C = (case props (heap st1 a) key of Some p \<Rightarrow> \<not> prop_configurable p | None \<Rightarrow> False)"
  define F where "F = (\<lambda>co (st2::ostate). st2\<lparr>heap := (heap st2)
                (a := define_property key (Cell val co (dep_uid st) sh cs (props (heap st1 a) key)) (heap st2 a))\<rparr>)"
  have eq: "defineReactive n a key va cs sh st =
      (if C then Some st1
       else case (if sh then Some (None, st1) else observe n val False st1) of
              None \<Rightarrow> None
            | Some (co, st2) \<Rightarrow> Some (F co st2))"
    unfolding defineReactive.simps [of n a key va cs sh st] Let_def C_def st1_def val_def F_def
    by (rule refl)
  have "observe n val False st1 \<noteq> None"
    using f c unfolding st1_def by (intro T) simp_all
  then show ?thesis unfolding eq by (auto split: option.splits)
qed

lemma walk_total:
  assumes T: "\<And>v st. finite (unobserved st) \<Longrightarrow> card (unobserved st) \<le> n
                \<Longrightarrow> observe n v False st \<noteq> None"
  shows "finite (unobserved st) \<Longrightarrow> card (unobserved st) \<le> n \<Longrightarrow> walk n a ks st \<noteq> None"
proof (induction ks arbitrary: st)
  case Nil
  then show ?case by simp
next
  case (Cons k ks)
  from T Cons.prems have "defineReactive n a k None False False st \<noteq> None"
    by (rule defineReactive_total)
  then obtain st1 where d: "defineReactive n a k None False False st = Some st1" by auto
  from defineReactive_frame [OF d] Cons.prems
  have "finite (unobserved st1) \<and> card (unobserved st1) \<le> n" by (rule grows_card)
  then have "walk n a ks st1 \<noteq> None" using Cons.IH by blast
  with d show ?case by simp
qed

lemma observeArray_total:
  assumes T: "\<And>v st. finite (unobserved st) \<Longrightarrow> card (unobserved st) \<le> n
                \<Longrightarrow> observe n v False st \<noteq> None"
  shows "finite (unobserved st) \<Longrightarrow> card (unobserved st) \<le> n
           \<Longrightarrow> observeArray n a i k st \<noteq> None"
proof (induction k arbitrary: i st)
  case 0
  then show ?case by simp
next
  case (Suc k)
  let ?item = "if i < length (elems (heap st a)) then elems (heap st a) ! i else Undefined"
  from Suc.prems have "observe n ?item False st \<noteq> None" by (rule T)
  then obtain r st1 where o: "observe n ?item False st = Some (r, st1)" by auto
  from observe_grows [OF o] Suc.prems
  have "finite (unobserved st1) \<and> card (unobserved st1) \<le> n" by (rule grows_card)
  then have "observeArray n a (Suc i) k st1 \<noteq> None" using Suc.IH by blast
  with o show ?case by (simp add: Let_def)
qed

lemma new_Observer_total:
  assumes T: "\<And>v st. finite (unobserved st) \<Longrightarrow> card (unobserved st) \<le> n
                \<Longrightarrow> observe n v False st \<noteq> None"
    and f: "finite (unobserved st)" and a: "a \<in> unobserved st"
    and c: "card (unobserved st) \<le> Suc n"
  shows "new_Observer (Suc n) a st \<noteq> None"
proof -
  define s0 where "s0 = st\<lparr>dep_uid := dep_uid st + 1,
                 heap := (heap st)(a := (heap st a)\<lparr>ob := Some \<lparr>odep = dep_uid st, vmCount = 0\<rparr>\<rparr>)\<rparr>"
  have u: "unobserved s0 = unobserved st - {a}"
    unfolding s0_def unobserved_def by auto
  have f0: "finite (unobserved s0)" using f u by simp
  have "card (unobserved s0) = card (unobserved st) - 1"
    using f a u by simp
  with c have c0: "card (unobserved s0) \<le> n" by simp
  have e: "new_Observer (Suc n) a st
      = (if kind (heap s0 a) = ArrayObj
         then observeArray n a 0 (length (elems (heap s0 a))) s0
         else walk n a (okeys (heap s0 a)) s0)"
    unfolding s0_def by (simp only: new_Observer.simps Let_def)
  from T f0 c0 have "walk n a (okeys (heap s0 a)) s0 \<noteq> None" by (rule walk_total)
  moreover from T f0 c0 have "observeArray n a 0 (length (elems (heap s0 a))) s0 \<noteq> None"
    by (rule observeArray_total)
  ultimately show ?thesis unfolding e by simp
qed

lemma observe_None:
  "observe n v root st = None \<Longrightarrow> \<exists>a. v = Obj a \<and> a \<in> unobserved st \<and> new_Observer n a st = None"
  by (cases v) (auto simp: observe.simps unobserved_def Let_def split: if_splits option.splits)

lemma observe_total:
  "finite (unobserved st) \<Longrightarrow> card (unobserved st) \<le> n \<Longrightarrow> observe n v root st \<noteq> None"
proof (induction n arbitrary: v root st)
  case 0
  then have "unobserved st = {}" by simp
  with observe_None [of 0 v root st] show ?case by blast
next
  case (Suc n)
  show ?case
  proof
    assume "observe (Suc n) v root st = None"
    then obtain a where a: "a \<in> unobserved st" and n: "new_Observer (Suc n) a st = None"
      using observe_None by blast
    have "new_Observer (Suc n) a st \<noteq> None"
      using Suc.IH Suc.prems(1) a Suc.prems(2) by (rule new_Observer_total)
    with n show False by simp
  qed
qed











lemma observable_notified [simp]: "observable (st\<lparr>notified := x\<rparr>) v = observable st v"
  by (simp add: observable_def split: jsval.splits)

lemma wrapped_notified [simp]: "wrapped (st\<lparr>notified := x\<rparr>) b = wrapped st b"
  by (simp add: wrapped_def)


lemma reactiveSetter_unfold:
  "reactiveSetter n dev c nv st =
     (if strict_eq nv (cell_value c) \<or>
         (\<not> strict_eq nv nv \<and> \<not> strict_eq (cell_value c) (cell_value c))
      then Some (c, st)
      else if has_getter (orig c) \<and> \<not> has_setter (orig c)
      then Some (c, if dev \<and> customSetter c
                    then st\<lparr>customSetterCalls := customSetterCalls st + 1\<rparr> else st)
      else case (case orig c of
                   Some p \<Rightarrow>
                     if has_setter (orig c)
                     then (case call_setter n dev p nv
                                   (if dev \<and> customSetter c
                                    then st\<lparr>customSetterCalls := customSetterCalls st + 1\<rparr> else st) of
                             None \<Rightarrow> None
                           | Some (p', s') \<Rightarrow> Some (cval c, Some p', s'))
                     else Some (nv, orig c, if dev \<and> customSetter c
                            then st\<lparr>customSetterCalls := customSetterCalls st + 1\<rparr> else st)
                 | None \<Rightarrow> Some (nv, orig c, if dev \<and> customSetter c
                            then st\<lparr>customSetterCalls := customSetterCalls st + 1\<rparr> else st)) of
             None \<Rightarrow> None
           | Some (v', og', st2) \<Rightarrow>
               (case (if shallow c then Some (None, st2) else observe n nv False st2) of
                  None \<Rightarrow> None
                | Some (co', st3) \<Rightarrow>
                    Some (Cell v' co' (cdep c) (shallow c) (customSetter c) og',
                          st3\<lparr>notified := notified st3 @ [cdep c]\<rparr>)))"
proof (cases c)
  case (Cell v co d sh cs og)
  show ?thesis
    unfolding Cell reactiveSetter.simps Let_def cell.sel by (rule refl)
qed





lemma obs_state_built:
  "(case observe 1 (Obj 0) False ostate0 of
      None \<Rightarrow> None
    | Some (r, s) \<Rightarrow> defineReactive 1 0 (KStr ''a'') (Some (Num 1)) False False s) = Some obs_state"
  by (simp add: observe.simps defineReactive.simps obs_state_def ostate0_def plain_x_def plain_def
        define_property_def Let_def fun_upd_twist)

lemma acc_state_built:
  "defineReactive 0 0 (KStr ''a'') None False False acc_pre = Some acc_state"
  by (simp add: observe.simps defineReactive.simps acc_state_def acc_pre_def ostate0_def plain_x_def
        plain_def define_property_def getter_only_def Let_def fun_upd_twist)

text \<open>
  An array at address 2 that holds the object \<open>{x: 7}\<close>, a number and itself, observed
  as root data: the array and the object get observers (deps 0 and 1), the property
  \<open>x\<close> is converted (dep 2), and the array is not observed a second time. Two
  constructors nest here, so a bound of 1 is not enough.
\<close>

lemma observe_array_example:
  "observe 2 (Obj 2) True
     (ostate0\<lparr>heap := (heap ostate0)(2 := plain\<lparr>kind := ArrayObj, elems := [Obj 1, Num 3, Obj 2]\<rparr>)\<rparr>)
   = Some (Some 2, ostate0\<lparr>heap := (heap ostate0)
        (2 := plain\<lparr>kind := ArrayObj, elems := [Obj 1, Num 3, Obj 2],
               ob := Some \<lparr>odep = 0, vmCount = 1\<rparr>\<rparr>,
         1 := plain_x\<lparr>ob := Some \<lparr>odep = 1, vmCount = 0\<rparr>,
               props := (\<lambda>_. None)(KStr ''x'' :=
                 Some (Reactive (Cell (Num 7) None 2 False False (Some (Data (Num 7) True)))))\<rparr>),
        dep_uid := 3\<rparr>)"
  "observe 1 (Obj 2) True
     (ostate0\<lparr>heap := (heap ostate0)(2 := plain\<lparr>kind := ArrayObj, elems := [Obj 1, Num 3, Obj 2]\<rparr>)\<rparr>)
   = None"
  by (simp_all add: observe.simps defineReactive.simps ostate0_def plain_x_def plain_def
        define_property_def Let_def fun_upd_twist eval_nat_numeral)


lemma warn_fields [simp]:
  "heap (warn st) = heap st" "notified (warn st) = notified st" "dep_uid (warn st) = dep_uid st"
  by (simp_all add: warn_def)

lemma hasOwn_delete_key:
  "kind obj \<noteq> ArrayObj \<or> \<not> isValidArrayIndex key \<Longrightarrow> delete_key obj key = Some obj'
     \<Longrightarrow> \<not> hasOwn obj' key"
  by (cases key) (auto split: if_splits option.splits)

text \<open>
  Claim C10. For a target that is not an array (or a key that is not an array index),
  \<open>del\<close> of a key that is not an own property of the target changes neither the heap
  nor the list of notifications. The list of notifications changes only when the target
  is an observed object that had the key as an own property and no longer has it, and
  then by the one notification of the observer's dep.
\<close>

theorem del_absent_key_noop:
  assumes "\<not> (is_array st tgt \<and> isValidArrayIndex key)"
  shows "(\<not> own_property st tgt key \<longrightarrow>
            heap (snd (del dev tgt key st)) = heap st \<and>
            notified (snd (del dev tgt key st)) = notified st \<and>
            dep_uid (snd (del dev tgt key st)) = dep_uid st \<and>
            (\<not> isUndef tgt \<longrightarrow> fst (del dev tgt key st) = None)) \<and>
         (notified (snd (del dev tgt key st)) \<noteq> notified st \<longrightarrow>
            (\<exists>a b. tgt = Obj a \<and> ob (heap st a) = Some b \<and>
                   hasOwn (heap st a) key \<and>
                   \<not> hasOwn (heap (snd (del dev tgt key st)) a) key \<and>
                   notified (snd (del dev tgt key st)) = notified st @ [odep b]))"
proof (cases tgt)
  case (Obj a)
  let ?obj = "heap st a"
  have arr: "kind ?obj \<noteq> ArrayObj \<or> \<not> isValidArrayIndex key"
    using assms Obj by (simp add: is_array_def)
  have del_eq: "del dev tgt key st =
      (if isVue ?obj \<or> (case ob ?obj of Some b \<Rightarrow> vmCount b \<noteq> 0 | None \<Rightarrow> False)
       then (None, if dev then warn st else st)
       else if \<not> hasOwn ?obj key then (None, st)
       else (case delete_key ?obj key of
               None \<Rightarrow> (Some TypeError, st)
             | Some obj' \<Rightarrow>
                 (case ob ?obj of
                    None \<Rightarrow> (None, st\<lparr>heap := (heap st)(a := obj')\<rparr>)
                  | Some b \<Rightarrow> (None, st\<lparr>heap := (heap st)(a := obj'),
                                        notified := notified st @ [odep b]\<rparr>))))"
    using arr Obj by (auto simp: del_def Let_def split: option.splits)
  show ?thesis
  proof (intro conjI impI)
    assume "\<not> own_property st tgt key"
    then have "\<not> hasOwn ?obj key" using Obj by (simp add: own_property_def)
    then show "heap (snd (del dev tgt key st)) = heap st"
      "notified (snd (del dev tgt key st)) = notified st"
      "dep_uid (snd (del dev tgt key st)) = dep_uid st"
      "fst (del dev tgt key st) = None"
      unfolding del_eq by simp_all
  next
    assume n: "notified (snd (del dev tgt key st)) \<noteq> notified st"
    then obtain obj' b where d: "delete_key ?obj key = Some obj'" and b: "ob ?obj = Some b"
      and own: "hasOwn ?obj key"
      and r: "del dev tgt key st = (None, st\<lparr>heap := (heap st)(a := obj'),
                                        notified := notified st @ [odep b]\<rparr>)"
      unfolding del_eq by (auto split: if_splits option.splits)
    have "\<not> hasOwn obj' key" using arr d by (rule hasOwn_delete_key)
    then show "\<exists>a b. tgt = Obj a \<and> ob (heap st a) = Some b \<and>
                   hasOwn (heap st a) key \<and>
                   \<not> hasOwn (heap (snd (del dev tgt key st)) a) key \<and>
                   notified (snd (del dev tgt key st)) = notified st @ [odep b]"
      using Obj b own unfolding r by simp
  qed
qed (auto simp: del_def Let_def own_property_def)

theorem del_absent_key_noop_witness:
  "\<not> (is_array obs_state (Obj 0) \<and> isValidArrayIndex (KStr ''b'')) \<and>
   \<not> own_property obs_state (Obj 0) (KStr ''b'') \<and>
   heap (snd (del True (Obj 0) (KStr ''b'') obs_state)) = heap obs_state \<and>
   notified (snd (del True (Obj 0) (KStr ''b'') obs_state)) = notified obs_state \<and>
   own_property obs_state (Obj 0) (KStr ''a'') \<and>
   notified (snd (del True (Obj 0) (KStr ''a'') obs_state)) = [0] \<and>
   \<not> hasOwn (heap (snd (del True (Obj 0) (KStr ''a'') obs_state)) 0) (KStr ''a'')"
proof -
  have a: "\<not> (is_array obs_state (Obj 0) \<and> isValidArrayIndex (KStr ''b''))"
    "\<not> (is_array obs_state (Obj 0) \<and> isValidArrayIndex (KStr ''a''))"
    by simp_all
  have b: "\<not> own_property obs_state (Obj 0) (KStr ''b'')"
    "own_property obs_state (Obj 0) (KStr ''a'')"
    by (simp_all add: own_property_def obs_state_def ostate0_def plain_def)
  have c: "notified (snd (del True (Obj 0) (KStr ''a'') obs_state)) = [0]"
    by (simp add: del_def obs_state_def ostate0_def plain_def Let_def)
  have n: "notified obs_state = []" by (simp add: obs_state_def ostate0_def)
  from del_absent_key_noop [OF a(1), of True] b(1)
  have d: "heap (snd (del True (Obj 0) (KStr ''b'') obs_state)) = heap obs_state"
    "notified (snd (del True (Obj 0) (KStr ''b'') obs_state)) = notified obs_state"
    by blast+
  from del_absent_key_noop [OF a(2), of True] c n
  have e: "\<not> hasOwn (heap (snd (del True (Obj 0) (KStr ''a'') obs_state)) 0) (KStr ''a'')"
    by auto
  show ?thesis using a b c d e by blast
qed

text \<open>
  Claim C9. A converted property whose original descriptor has a getter and no setter
  ignores every write: the closure, the heap, the dep counter and the notifications are
  as before (a custom setter of a development build is still called when the value
  differs). This is so in particular for the closure \<open>defineReactive\<close> builds from
  such a descriptor, which it does whenever its call returns: always for a call with two
  arguments or a shallow one, and otherwise when the bound on nested observers is at
  least the number of objects still to be observed.
\<close>

theorem getter_only_write_dropped:
  assumes "has_getter (orig c)" and "\<not> has_setter (orig c)"
  shows "(\<exists>st'. reactiveSetter n dev c nv st = Some (c, st') \<and>
               heap st' = heap st \<and> notified st' = notified st \<and> dep_uid st' = dep_uid st) \<and>
         (\<forall>p a key va cs sh s0 m.
            orig c = Some p \<and> props (heap s0 a) key = Some p \<and> prop_configurable p \<and>
            (va = None \<or> sh \<or> (finite (unobserved s0) \<and> card (unobserved s0) \<le> m)) \<longrightarrow>
            (\<exists>s1 c'. defineReactive m a key va cs sh s0 = Some s1 \<and>
                  props (heap s1 a) key = Some (Reactive c') \<and> orig c' = Some p \<and>
                  (\<exists>st'. reactiveSetter n dev c' nv st = Some (c', st') \<and>
                         notified st' = notified st)))"
proof -
  have drop: "\<exists>st'. reactiveSetter n dev k nv st = Some (k, st') \<and>
               heap st' = heap st \<and> notified st' = notified st \<and> dep_uid st' = dep_uid st"
    if "has_getter (orig k)" "\<not> has_setter (orig k)" for k
    unfolding reactiveSetter_unfold [of n dev k nv st] using that by simp
  have def: "\<exists>s1 c'. defineReactive m a key va cs sh s0 = Some s1 \<and>
                  props (heap s1 a) key = Some (Reactive c') \<and> orig c' = Some p"
    if p: "props (heap s0 a) key = Some p" "prop_configurable p"
      and g: "has_getter (Some p)" "\<not> has_setter (Some p)"
      and t: "va = None \<or> sh \<or> (finite (unobserved s0) \<and> card (unobserved s0) \<le> m)"
    for p a key va cs sh s0 m
  proof -
    define st1 where "st1 = s0\<lparr>dep_uid := dep_uid s0 + 1\<rparr>"
    define val where "val = (case va of
                        Some v \<Rightarrow> v
                      | None \<Rightarrow> if \<not> has_getter (props (heap st1 a) key) \<or> has_setter (props (heap st1 a) key)
                                then (case props (heap st1 a) key of Some p \<Rightarrow> call_getter p | None \<Rightarrow> Undefined)
                                else Undefined)"
    define C where "C = (case props (heap st1 a) key of Some p \<Rightarrow> \<not> prop_configurable p | None \<Rightarrow> False)"
    define F where "F = (\<lambda>co (st2::ostate). st2\<lparr>heap := (heap st2)
                (a := define_property key (Cell val co (dep_uid s0) sh cs (props (heap st1 a) key)) (heap st2 a))\<rparr>)"
    have eq: "defineReactive m a key va cs sh s0 =
        (if C then Some st1
         else case (if sh then Some (None, st1) else observe m val False st1) of
                None \<Rightarrow> None
              | Some (co, st2) \<Rightarrow> Some (F co st2))"
      unfolding defineReactive.simps [of m a key va cs sh s0] Let_def C_def st1_def val_def F_def
      by (rule refl)
    have pr: "props (heap st1 a) key = Some p" using p by (simp add: st1_def)
    have nC: "\<not> C" using p by (simp add: C_def pr)
    have "(if sh then Some (None, st1) else observe m val False st1) \<noteq> None"
    proof (cases sh)
      case True
      then show ?thesis by simp
    next
      case False
      show ?thesis
      proof (cases "va = None")
        case True
        then have "val = Undefined" using g by (simp add: val_def pr)
        then show ?thesis using False by (simp add: observe.simps)
      next
        case nv: False
        with t False have "finite (unobserved st1)" "card (unobserved st1) \<le> m"
          by (simp_all add: st1_def)
        then have "observe m val False st1 \<noteq> None" by (rule observe_total)
        with False show ?thesis by simp
      qed
    qed
    then obtain co st2 where
      o: "(if sh then Some (None, st1) else observe m val False st1) = Some (co, st2)"
      by auto
    have r: "defineReactive m a key va cs sh s0 = Some (F co st2)"
      unfolding eq o using nC by simp
    have "props (heap (F co st2) a) key = Some (Reactive (Cell val co (dep_uid s0) sh cs (Some p)))"
      by (simp add: F_def define_property_def pr)
    with r show ?thesis by auto
  qed
  have two: "\<exists>s1 c'. defineReactive m a key va cs sh s0 = Some s1 \<and>
                  props (heap s1 a) key = Some (Reactive c') \<and> orig c' = Some p \<and>
                  (\<exists>st'. reactiveSetter n dev c' nv st = Some (c', st') \<and>
                         notified st' = notified st)"
    if "orig c = Some p" "props (heap s0 a) key = Some p" "prop_configurable p"
      "va = None \<or> sh \<or> (finite (unobserved s0) \<and> card (unobserved s0) \<le> m)"
    for p a key va cs sh s0 m
  proof -
    from assms that(1) have g: "has_getter (Some p)" "\<not> has_setter (Some p)" by simp_all
    from def [OF that(2,3) g that(4)] obtain s1 c' where
      d: "defineReactive m a key va cs sh s0 = Some s1"
        "props (heap s1 a) key = Some (Reactive c')" "orig c' = Some p"
      by blast
    from drop [of c'] d(3) g
    have "\<exists>st'. reactiveSetter n dev c' nv st = Some (c', st') \<and> notified st' = notified st"
      by auto
    with d show ?thesis by blast
  qed
  show ?thesis
    using drop [OF assms] two by blast
qed

theorem getter_only_write_dropped_witness:
  "has_getter (orig (Cell Undefined None 0 False False (Some getter_only))) \<and>
   \<not> has_setter (orig (Cell Undefined None 0 False False (Some getter_only))) \<and>
   reactiveSetter 0 True (Cell Undefined None 0 False False (Some getter_only)) (Num 2) acc_state
     = Some (Cell Undefined None 0 False False (Some getter_only), acc_state) \<and>
   props (heap acc_pre 0) (KStr ''a'') = Some getter_only \<and> prop_configurable getter_only \<and>
   defineReactive 0 0 (KStr ''a'') None False False acc_pre = Some acc_state \<and>
   props (heap acc_state 0) (KStr ''a'')
     = Some (Reactive (Cell Undefined None 0 False False (Some getter_only)))"
proof -
  have g: "has_getter (orig (Cell Undefined None 0 False False (Some getter_only)))"
    and s: "\<not> has_setter (orig (Cell Undefined None 0 False False (Some getter_only)))"
    by (simp_all add: getter_only_def)
  have e: "reactiveSetter 0 True (Cell Undefined None 0 False False (Some getter_only)) (Num 2) acc_state
     = Some (Cell Undefined None 0 False False (Some getter_only), acc_state)"
    by (simp add: getter_only_def Let_def)
  have p: "props (heap acc_pre 0) (KStr ''a'') = Some getter_only" "prop_configurable getter_only"
    "props (heap acc_state 0) (KStr ''a'')
       = Some (Reactive (Cell Undefined None 0 False False (Some getter_only)))"
    by (simp_all add: acc_pre_def acc_state_def ostate0_def getter_only_def)
  note th = getter_only_write_dropped [OF g s, of 0 True "Num 2" acc_state]
  from th have "\<exists>st'. reactiveSetter 0 True (Cell Undefined None 0 False False (Some getter_only)) (Num 2) acc_state
     = Some (Cell Undefined None 0 False False (Some getter_only), st') \<and>
     notified st' = notified acc_state"
    by blast
  moreover from th p(1,2)
  have "\<exists>s1 c'. defineReactive 0 0 (KStr ''a'') None False False acc_pre = Some s1 \<and>
          props (heap s1 0) (KStr ''a'') = Some (Reactive c')"
    by (simp only: cell.sel) blast
  ultimately show ?thesis using e g s p acc_state_built by blast
qed





declare queueWatcher.simps [simp del]

declare flushSchedulerQueue.simps [simp del]

declare flush_loop.simps [simp del]

section \<open>Properties of the scheduler\<close>

lemma scan_le: "scan q idx w j \<le> j"
  by (induction j) auto

lemma scan_ge: "min (Suc idx) j \<le> scan q idx w j"
  by (induction j) auto

lemma scan_after: "scan q idx w j \<le> k \<Longrightarrow> k < j \<Longrightarrow> w < q ! k"
proof (induction j)
  case 0
  then show ?case by simp
next
  case (Suc i)
  show ?case
  proof (cases "i > idx \<and> q ! i > w")
    case True
    with Suc show ?thesis by (cases "k = i") auto
  next
    case False
    with Suc.prems show ?thesis by auto
  qed
qed

lemma scan_before: "Suc idx < scan q idx w j \<Longrightarrow> q ! (scan q idx w j - 1) \<le> w"
  by (induction j) (auto split: if_splits)

lemma enqueue_queue_fields [simp]:
  "enqueue w (st\<lparr>has := h\<rparr>) = enqueue w st"
  by (simp add: enqueue_def)

lemma queueWatcher_waiting:
  "waiting st \<Longrightarrow>
   queueWatcher n cfg bf beh w st =
     Some (None, if has st w then st
                 else st\<lparr>has := (has st)(w := True), queue := enqueue w st\<rparr>)"
  by (simp add: queueWatcher.simps Let_def)

lemma enq_all_fields [simp]:
  "waiting (enq_all ws st) = waiting st"
  "flushing (enq_all ws st) = flushing st"
  "index (enq_all ws st) = index st"
  "runs (enq_all ws st) = runs st"
  "warned (enq_all ws st) = warned st"
  "befores (enq_all ws st) = befores st"
  "circular (enq_all ws st) = circular st"
  by (induction ws arbitrary: st) simp_all

lemma run_effect_waiting:
  "waiting st \<Longrightarrow> run_effect n cfg bf beh ws st = Some (None, enq_all ws st)"
proof (induction ws arbitrary: st)
  case Nil
  then show ?case by simp
next
  case (Cons w ws)
  let ?st1 = "if has st w then st else st\<lparr>has := (has st)(w := True), queue := enqueue w st\<rparr>"
  have "waiting ?st1" using Cons.prems by simp
  from Cons.IH [OF this] show ?case
    using Cons.prems by (simp add: queueWatcher_waiting)
qed

lemma splice_prefix:
  "k \<le> p \<Longrightarrow> p \<le> length q \<Longrightarrow> take k (take p q @ [w] @ drop p q) = take k q"
  by (simp add: min_def)

lemma splice_tail:
  "k \<le> p \<Longrightarrow> p \<le> length q \<Longrightarrow>
     drop k (take p q @ [w] @ drop p q) = drop k (take p q) @ w # drop p q"
  by simp

lemma tail_split:
  assumes "k \<le> p" "p \<le> length q"
  shows "drop k q = drop k (take p q) @ drop p q"
proof -
  have "drop k q = drop k (take p q @ drop p q)" by simp
  also have "\<dots> = drop k (take p q) @ drop (k - length (take p q)) (drop p q)"
    by (simp only: drop_append)
  also have "\<dots> = drop k (take p q) @ drop p q"
    using assms by simp
  finally show ?thesis .
qed

lemma enqueue_length [simp]: "length (enqueue w st) = Suc (length (queue st))"
  using scan_le [of "queue st" "index st" w "length (queue st)"]
  by (simp add: enqueue_def Let_def)

lemma enqueue_mset: "mset (enqueue w st) = add_mset w (mset (queue st))"
proof -
  have "mset (take p q @ [w] @ drop p q) = add_mset w (mset q)" for p and q :: "nat list"
    by (metis append_take_drop_id mset.simps(2) mset_append union_mset_add_mset_right append_Cons
          append_Nil)
  then show ?thesis by (simp add: enqueue_def Let_def)
qed

lemma enqueue_prefix:
  assumes "index st < length (queue st)"
  shows "take (Suc (index st)) (enqueue w st) = take (Suc (index st)) (queue st)"
proof (cases "flushing st")
  case False
  then show ?thesis using assms by (simp add: enqueue_def)
next
  case True
  let ?p = "scan (queue st) (index st) w (length (queue st))"
  have "Suc (index st) \<le> ?p"
    using scan_ge [of "index st" "length (queue st)" "queue st" w] assms by simp
  moreover have "?p \<le> length (queue st)" by (rule scan_le)
  ultimately show ?thesis
    using True splice_prefix [of "Suc (index st)" ?p "queue st" w]
    by (simp add: enqueue_def Let_def)
qed

lemma enqueue_tail_set:
  assumes "index st < length (queue st)"
  shows "set (drop (Suc (index st)) (enqueue w st))
           = insert w (set (drop (Suc (index st)) (queue st)))"
proof (cases "flushing st")
  case False
  then show ?thesis using assms by (simp add: enqueue_def)
next
  case True
  let ?p = "scan (queue st) (index st) w (length (queue st))"
  have a: "Suc (index st) \<le> ?p"
    using scan_ge [of "index st" "length (queue st)" "queue st" w] assms by simp
  have b: "?p \<le> length (queue st)" by (rule scan_le)
  have "drop (Suc (index st)) (enqueue w st)
          = drop (Suc (index st)) (take ?p (queue st)) @ w # drop ?p (queue st)"
    using True splice_tail [OF a b, of w] by (simp add: enqueue_def Let_def)
  moreover have "drop (Suc (index st)) (queue st)
          = drop (Suc (index st)) (take ?p (queue st)) @ drop ?p (queue st)"
    using a b by (rule tail_split)
  ultimately show ?thesis by simp
qed

lemma sorted_le_last: "sorted xs \<Longrightarrow> x \<in> set xs \<Longrightarrow> x \<le> (last xs :: nat)"
  by (induction xs) auto

lemma sorted_insert_between:
  fixes w :: nat
  assumes "sorted (xs @ ys)" and "\<And>x. x \<in> set xs \<Longrightarrow> x \<le> w"
    and "\<And>y. y \<in> set ys \<Longrightarrow> w \<le> y"
  shows "sorted (xs @ w # ys)"
  using assms by (induction xs) auto

lemma enqueue_sorted_tail:
  assumes "flushing st" "index st < length (queue st)"
    and "sorted (drop (Suc (index st)) (queue st))"
  shows "sorted (drop (Suc (index st)) (enqueue w st))"
proof -
  define q where "q = queue st"
  define i where "i = index st"
  define p where "p = scan q i w (length q)"
  define xs where "xs = drop (Suc i) (take p q)"
  define ys where "ys = drop p q"
  have a: "Suc i \<le> p"
    using scan_ge [of i "length q" q w] assms(2) by (simp add: p_def q_def i_def)
  have b: "p \<le> length q" unfolding p_def by (rule scan_le)
  have e: "drop (Suc (index st)) (enqueue w st) = xs @ w # ys"
    using assms(1) splice_tail [OF a b, of w]
    by (simp add: enqueue_def Let_def xs_def ys_def p_def q_def i_def)
  have s: "sorted (xs @ ys)"
    using assms(3) tail_split [OF a b] by (simp add: xs_def ys_def q_def i_def)
  have ys: "w \<le> y" if "y \<in> set ys" for y
  proof -
    from that obtain k where k: "k < length ys" "y = ys ! k"
      by (auto simp: in_set_conv_nth)
    then have "y = q ! (p + k)" using b by (simp add: ys_def)
    moreover have "w < q ! (p + k)"
      using k(1) unfolding p_def by (intro scan_after [of q i w "length q"]) (simp_all add: ys_def p_def)
    ultimately show ?thesis by simp
  qed
  have xs: "x \<le> w" if "x \<in> set xs" for x
  proof -
    from that have ne: "xs \<noteq> []" by auto
    then have lt: "Suc i < p" using b by (simp add: xs_def)
    have len: "length xs = p - Suc i" using b by (simp add: xs_def)
    have "last xs = xs ! (length xs - 1)" using ne by (rule last_conv_nth)
    also have "\<dots> = take p q ! (Suc i + (length xs - 1))"
      unfolding xs_def using a b by (intro nth_drop) simp
    also have "Suc i + (length xs - 1) = p - 1" using lt len by arith
    also have "take p q ! (p - 1) = q ! (p - 1)" using lt by simp
    finally have l: "last xs = q ! (p - 1)" .
    have "sorted xs" using s by (simp add: sorted_append)
    then have "x \<le> last xs"
      using that by (rule sorted_le_last)
    also have "\<dots> \<le> w" unfolding l p_def using lt unfolding p_def by (rule scan_before)
    finally show ?thesis .
  qed
  have "sorted (xs @ w # ys)"
    using s xs ys by (rule sorted_insert_between)
  then show ?thesis unfolding e .
qed

lemma begin_run_fields [simp]:
  "queue (begin_run bf st) = queue st"
  "index (begin_run bf st) = index st"
  "waiting (begin_run bf st) = waiting st"
  "flushing (begin_run bf st) = flushing st"
  "warned (begin_run bf st) = warned st"
  "circular (begin_run bf st) = circular st"
  "runs (begin_run bf st) = runs st @ [queue st ! index st]"
  "has (begin_run bf st) = (has st)(queue st ! index st := False)"
  by (simp_all add: begin_run_def Let_def)

lemma flush_loop_iteration:
  assumes "waiting st" and "index st < length (queue st)"
  shows "flush_loop (Suc n) cfg bf beh st =
     (let w = queue st ! index st;
          st4 = enq_all (fst (beh (length (runs st)))) (begin_run bf st)
      in case snd (beh (length (runs st))) of
           Some e \<Rightarrow> Some (Some e, st4)
         | None \<Rightarrow>
             if \<not> production cfg \<and> has st4 w then
               if circular st w + 1 > MAX_UPDATE_COUNT
               then Some (None, st4\<lparr>circular := (circular st)(w := circular st w + 1),
                                    warned := warned st @ [w]\<rparr>)
               else flush_loop n cfg bf beh
                      (st4\<lparr>circular := (circular st)(w := circular st w + 1),
                           index := index st + 1\<rparr>)
             else flush_loop n cfg bf beh (st4\<lparr>index := index st + 1\<rparr>))"
proof -
  obtain enq thrown where b: "beh (length (runs st)) = (enq, thrown)"
    by (cases "beh (length (runs st))")
  let ?w = "queue st ! index st"
  let ?st1 = "if bf ?w then st\<lparr>befores := befores st @ [?w]\<rparr> else st"
  let ?st2 = "?st1\<lparr>has := (has ?st1)(?w := False)\<rparr>"
  have r: "length (runs ?st2) = length (runs st)" by simp
  have br: "?st2\<lparr>runs := runs ?st2 @ [?w]\<rparr> = begin_run bf st"
    by (simp add: begin_run_def Let_def)
  have w3: "waiting (begin_run bf st)" using assms(1) by simp
  have re: "run_effect n cfg bf beh enq (begin_run bf st)
              = Some (None, enq_all enq (begin_run bf st))"
    using w3 by (rule run_effect_waiting)
  show ?thesis
    unfolding flush_loop.simps(2) [of n cfg bf beh st] Let_def r b br
    using assms(2) by (simp add: re split: option.splits)
qed

lemma enq_all_queue:
  assumes "index st < length (queue st)"
  shows "take (Suc (index st)) (queue (enq_all ws st)) = take (Suc (index st)) (queue st) \<and>
         set (drop (Suc (index st)) (queue st))
           \<subseteq> set (drop (Suc (index st)) (queue (enq_all ws st))) \<and>
         length (queue st) \<le> length (queue (enq_all ws st))"
  using assms
proof (induction ws arbitrary: st)
  case Nil
  then show ?case by simp
next
  case (Cons w ws)
  let ?st1 = "if has st w then st else st\<lparr>has := (has st)(w := True), queue := enqueue w st\<rparr>"
  have i: "index ?st1 = index st" by simp
  have l: "length (queue st) \<le> length (queue ?st1)" by simp
  have p: "take (Suc (index st)) (queue ?st1) = take (Suc (index st)) (queue st)"
    using Cons.prems by (simp add: enqueue_prefix)
  have s: "set (drop (Suc (index st)) (queue st)) \<subseteq> set (drop (Suc (index st)) (queue ?st1))"
    using Cons.prems by (auto simp: enqueue_tail_set)
  have "index ?st1 < length (queue ?st1)" using Cons.prems l by simp
  from Cons.IH [OF this] show ?case
    unfolding i using p s l by auto
qed

lemma enq_all_sorted_tail:
  assumes "flushing st" "index st < length (queue st)"
    and "sorted (drop (Suc (index st)) (queue st))"
  shows "sorted (drop (Suc (index st)) (queue (enq_all ws st)))"
  using assms
proof (induction ws arbitrary: st)
  case Nil
  then show ?case by simp
next
  case (Cons w ws)
  let ?st1 = "if has st w then st else st\<lparr>has := (has st)(w := True), queue := enqueue w st\<rparr>"
  have a: "flushing ?st1" "index ?st1 < length (queue ?st1)"
    using Cons.prems by simp_all
  have "sorted (drop (Suc (index st)) (enqueue w st))"
    using Cons.prems by (rule enqueue_sorted_tail)
  then have b: "sorted (drop (Suc (index ?st1)) (queue ?st1))"
    using Cons.prems(3) by simp
  have i: "index ?st1 = index st" by simp
  from Cons.IH [OF a b] show ?case unfolding i by simp
qed

lemma flush_loop_runs_all:
  "waiting st \<Longrightarrow> flush_loop n cfg bf beh st = Some (None, st') \<Longrightarrow>
     (\<exists>x. warned st' = warned st @ [x]) \<or>
     (warned st' = warned st \<and>
      runs st' = runs st @ drop (index st) (queue st') \<and>
      take (index st) (queue st') = take (index st) (queue st) \<and>
      set (drop (index st) (queue st)) \<subseteq> set (drop (index st) (queue st')) \<and>
      length (queue st) \<le> length (queue st'))"
proof (induction n arbitrary: st)
  case 0
  then show ?case by (simp add: flush_loop.simps)
next
  case (Suc n)
  show ?case
  proof (cases "index st < length (queue st)")
    case False
    with Suc.prems(2) have "st' = st" by (simp add: flush_loop.simps)
    with False show ?thesis by simp
  next
    case True
    define w where "w = queue st ! index st"
    define st4 where "st4 = enq_all (fst (beh (length (runs st)))) (begin_run bf st)"
    have bi: "index (begin_run bf st) < length (queue (begin_run bf st))" using True by simp
    from enq_all_queue [OF bi, of "fst (beh (length (runs st)))"]
    have q4: "take (Suc (index st)) (queue st4) = take (Suc (index st)) (queue st)"
      "set (drop (Suc (index st)) (queue st)) \<subseteq> set (drop (Suc (index st)) (queue st4))"
      "length (queue st) \<le> length (queue st4)"
      by (simp_all add: st4_def)
    have f4: "waiting st4" "warned st4 = warned st" "runs st4 = runs st @ [w]" "index st4 = index st"
      using Suc.prems(1) by (simp_all add: st4_def w_def)
    have rest: "(\<exists>x. warned st' = warned st @ [x]) \<or>
     (warned st' = warned st \<and>
      runs st' = runs st @ drop (index st) (queue st') \<and>
      take (index st) (queue st') = take (index st) (queue st) \<and>
      set (drop (index st) (queue st)) \<subseteq> set (drop (index st) (queue st')) \<and>
      length (queue st) \<le> length (queue st'))"
      if r: "flush_loop n cfg bf beh s6 = Some (None, st')"
        and s6: "waiting s6" "warned s6 = warned st" "runs s6 = runs st @ [w]"
          "index s6 = Suc (index st)" "queue s6 = queue st4"
      for s6
    proof -
      from Suc.IH [OF s6(1) r]
      show ?thesis
      proof
        assume "\<exists>x. warned st' = warned s6 @ [x]"
        then show ?thesis using s6(2) by simp
      next
        assume a: "warned st' = warned s6 \<and>
          runs st' = runs s6 @ drop (index s6) (queue st') \<and>
          take (index s6) (queue st') = take (index s6) (queue s6) \<and>
          set (drop (index s6) (queue s6)) \<subseteq> set (drop (index s6) (queue st')) \<and>
          length (queue s6) \<le> length (queue st')"
        then have tk: "take (Suc (index st)) (queue st') = take (Suc (index st)) (queue st)"
          using s6 q4 by simp
        have len: "index st < length (queue st')" using a s6 q4 True by simp
        have "queue st' ! index st = take (Suc (index st)) (queue st') ! index st" by simp
        also have "\<dots> = w" unfolding tk w_def by simp
        finally have nth: "queue st' ! index st = w" .
        have dr: "drop (index st) (queue st') = w # drop (Suc (index st)) (queue st')"
          using len nth by (simp add: Cons_nth_drop_Suc [symmetric])
        have dr0: "drop (index st) (queue st) = w # drop (Suc (index st)) (queue st)"
          using True by (simp add: Cons_nth_drop_Suc [symmetric] w_def)
        have "take (index st) (take (Suc (index st)) (queue st'))
                = take (index st) (take (Suc (index st)) (queue st))"
          using tk by simp
        then have tk0: "take (index st) (queue st') = take (index st) (queue st)"
          by (simp add: min_def)
        have sub: "set (drop (index st) (queue st)) \<subseteq> set (drop (index st) (queue st'))"
          unfolding dr dr0 using a s6 q4(2) by auto
        show ?thesis
          using a s6 q4 dr tk0 sub by simp
      qed
    qed
    note it = flush_loop_iteration [OF Suc.prems(1) True, of n cfg bf beh,
        unfolded Let_def, folded w_def st4_def]
    show ?thesis
    proof (cases "snd (beh (length (runs st)))")
      case (Some e)
      with it Suc.prems(2) show ?thesis by simp
    next
      case None
      show ?thesis
      proof (cases "\<not> production cfg \<and> has st4 w")
        case False
        with it None Suc.prems(2)
        have "flush_loop n cfg bf beh (st4\<lparr>index := index st + 1\<rparr>) = Some (None, st')"
          by auto
        then show ?thesis
          by (rule rest) (simp_all add: f4)
      next
        case dev: True
        show ?thesis
        proof (cases "circular st w + 1 > MAX_UPDATE_COUNT")
          case True
          with it None dev Suc.prems(2)
          have "st' = st4\<lparr>circular := (circular st)(w := circular st w + 1),
                                    warned := warned st @ [w]\<rparr>"
            by auto
          then show ?thesis by simp
        next
          case False
          with it None dev Suc.prems(2)
          have "flush_loop n cfg bf beh
                  (st4\<lparr>circular := (circular st)(w := circular st w + 1),
                       index := index st + 1\<rparr>) = Some (None, st')"
            by auto
          then show ?thesis
            by (rule rest) (simp_all add: f4)
        qed
      qed
    qed
  qed
qed

lemma resetSchedulerState_fields [simp]:
  "queue (resetSchedulerState cfg st) = []"
  "index (resetSchedulerState cfg st) = 0"
  "waiting (resetSchedulerState cfg st) = False"
  "flushing (resetSchedulerState cfg st) = False"
  "has (resetSchedulerState cfg st) = (\<lambda>_. False)"
  "runs (resetSchedulerState cfg st) = runs st"
  "warned (resetSchedulerState cfg st) = warned st"
  by (simp_all add: resetSchedulerState_def)

lemma selfloop_flush:
  assumes "\<not> production cfg"
  shows "queue st = replicate (Suc i) w \<Longrightarrow> index st = i \<Longrightarrow> circular st w = i \<Longrightarrow>
     waiting st \<Longrightarrow> flushing st \<Longrightarrow> i \<le> MAX_UPDATE_COUNT \<Longrightarrow> MAX_UPDATE_COUNT - i < n \<Longrightarrow>
     \<exists>s'. flush_loop n cfg bf (\<lambda>_. ([w], None)) st = Some (None, s') \<and>
          runs s' = runs st @ replicate (Suc MAX_UPDATE_COUNT - i) w \<and>
          warned s' = warned st @ [w]"
proof (induction "MAX_UPDATE_COUNT - i" arbitrary: st n i)
  case 0
  then have i: "i = MAX_UPDATE_COUNT" by simp
  from 0 obtain m where n: "n = Suc m" by (cases n) auto
  have lt: "index st < length (queue st)" using "0.prems"(1,2) by simp
  have w: "queue st ! index st = w"
    unfolding "0.prems"(1) "0.prems"(2) by (rule nth_replicate) simp
  let ?st4 = "enq_all [w] (begin_run bf st)"
  have h: "has ?st4 w" using w by simp
  note it = flush_loop_iteration [OF \<open>waiting st\<close> lt, of m cfg bf "\<lambda>_. ([w], None)",
      unfolded Let_def w]
  show ?case
    unfolding n it using h assms "0.prems"(3) i w by simp
next
  case (Suc k)
  then have i: "i < MAX_UPDATE_COUNT" by simp
  from Suc.prems obtain m where n: "n = Suc m" by (cases n) auto
  have lt: "index st < length (queue st)" using Suc.prems(1,2) by simp
  have w: "queue st ! index st = w"
    unfolding Suc.prems(1) Suc.prems(2) by (rule nth_replicate) simp
  let ?st4 = "enq_all [w] (begin_run bf st)"
  let ?st6 = "?st4\<lparr>circular := (circular st)(w := circular st w + 1), index := index st + 1\<rparr>"
  have h: "has ?st4 w" using w by simp
  have sc: "scan (replicate (Suc i) w) i w (Suc i) = Suc i" by simp
  have q4: "queue ?st4 = replicate (Suc (Suc i)) w"
    using Suc.prems w sc by (simp add: enqueue_def Let_def replicate_append_same)
  note it = flush_loop_iteration [OF \<open>waiting st\<close> lt, of m cfg bf "\<lambda>_. ([w], None)",
      unfolded Let_def w]
  have step: "flush_loop n cfg bf (\<lambda>_. ([w], None)) st = flush_loop m cfg bf (\<lambda>_. ([w], None)) ?st6"
    unfolding n it using h assms Suc.prems(3) i by simp
  have k: "k = MAX_UPDATE_COUNT - Suc i" using Suc.hyps(2) by simp
  have "\<exists>s'. flush_loop m cfg bf (\<lambda>_. ([w], None)) ?st6 = Some (None, s') \<and>
          runs s' = runs ?st6 @ replicate (Suc MAX_UPDATE_COUNT - Suc i) w \<and>
          warned s' = warned ?st6 @ [w]"
    using Suc.prems i n q4
    by (intro Suc.hyps(1) [OF k]) simp_all
  then obtain s' where s': "flush_loop m cfg bf (\<lambda>_. ([w], None)) ?st6 = Some (None, s')"
    "runs s' = runs ?st6 @ replicate (Suc MAX_UPDATE_COUNT - Suc i) w"
    "warned s' = warned ?st6 @ [w]"
    by blast
  have "runs ?st6 @ replicate (Suc MAX_UPDATE_COUNT - Suc i) w
          = runs st @ replicate (Suc MAX_UPDATE_COUNT - i) w"
    using i w by (simp add: Suc_diff_le replicate_Suc [symmetric] del: replicate_Suc)
  then show ?case
    unfolding step using s' by simp
qed

lemma flushSchedulerQueue_selfloop:
  assumes "\<not> production cfg" and "queue st = [w]" and "circular st w = 0" and "waiting st"
    and "Suc MAX_UPDATE_COUNT < n"
  shows "\<exists>s'. flushSchedulerQueue n cfg bf (\<lambda>_. ([w], None)) st = Some (None, s') \<and>
          runs s' = runs st @ replicate (Suc MAX_UPDATE_COUNT) w \<and>
          warned s' = warned st @ [w] \<and> queue s' = [] \<and> \<not> flushing s' \<and> \<not> waiting s'"
proof -
  let ?st1 = "st\<lparr>flushing := True, queue := sort (queue st), index := 0\<rparr>"
  have "\<exists>s'. flush_loop n cfg bf (\<lambda>_. ([w], None)) ?st1 = Some (None, s') \<and>
          runs s' = runs ?st1 @ replicate (Suc MAX_UPDATE_COUNT - 0) w \<and>
          warned s' = warned ?st1 @ [w]"
    using assms by (intro selfloop_flush) simp_all
  then obtain s1 where s1: "flush_loop n cfg bf (\<lambda>_. ([w], None)) ?st1 = Some (None, s1)"
    "runs s1 = runs st @ replicate (Suc MAX_UPDATE_COUNT) w" "warned s1 = warned st @ [w]"
    by auto
  show ?thesis
    unfolding flushSchedulerQueue.simps Let_def
    using s1 by simp
qed

text \<open>
  Claim C7. In a development build, for an iteration of the flush loop whose
  \<open>run()\<close> does not throw: when the watcher's pending flag is set again after its
  own run and that has now happened more than \<open>MAX_UPDATE_COUNT\<close> = 100 times, the
  loop ends there, without an exception, with the warning recorded and the state the
  run left (the cursor stays on the watcher); when the count is at most 100, or the flag
  is not set, the loop goes on with the next position. A watcher whose every run
  enqueues itself is run 101 times by one flush, which then ends with one warning and
  resets the scheduler, given the fuel for 102 iterations.
\<close>

theorem runaway_update_breaker:
  assumes "\<not> production cfg" and "waiting st" and "index st < length (queue st)"
    and "snd (beh (length (runs st))) = None"
  shows "(let w = queue st ! index st;
              st4 = enq_all (fst (beh (length (runs st)))) (begin_run bf st);
              count = circular st w + 1
          in (has st4 w \<and> count > 100 \<longrightarrow>
                flush_loop (Suc n) cfg bf beh st =
                  Some (None, st4\<lparr>circular := (circular st)(w := count),
                                   warned := warned st @ [w]\<rparr>)) \<and>
             (has st4 w \<and> count \<le> 100 \<longrightarrow>
                flush_loop (Suc n) cfg bf beh st =
                  flush_loop n cfg bf beh
                    (st4\<lparr>circular := (circular st)(w := count), index := index st + 1\<rparr>)) \<and>
             (\<not> has st4 w \<longrightarrow>
                flush_loop (Suc n) cfg bf beh st =
                  flush_loop n cfg bf beh (st4\<lparr>index := index st + 1\<rparr>)) \<and>
             runs st4 = runs st @ [w] \<and>
             (\<forall>v s0 m. queue s0 = [v] \<and> circular s0 v = 0 \<and> waiting s0 \<and> 101 < m \<longrightarrow>
                (\<exists>s'. flushSchedulerQueue m cfg bf (\<lambda>_. ([v], None)) s0 = Some (None, s') \<and>
                      runs s' = runs s0 @ replicate 101 v \<and>
                      warned s' = warned s0 @ [v] \<and>
                      queue s' = [] \<and> \<not> flushing s' \<and> \<not> waiting s')))"
proof -
  note it = flush_loop_iteration [OF assms(2,3), of n cfg bf beh, unfolded Let_def]
  have sc: "\<exists>s'. flushSchedulerQueue m cfg bf (\<lambda>_. ([v], None)) s0 = Some (None, s') \<and>
                      runs s' = runs s0 @ replicate 101 v \<and>
                      warned s' = warned s0 @ [v] \<and>
                      queue s' = [] \<and> \<not> flushing s' \<and> \<not> waiting s'"
    if "queue s0 = [v]" "circular s0 v = 0" "waiting s0" "101 < m" for v s0 m
    using flushSchedulerQueue_selfloop [OF assms(1) that(1,2,3), of m bf] that(4)
    by (simp add: MAX_UPDATE_COUNT_def)
  show ?thesis
    unfolding Let_def it
    using assms(1,4) sc by (auto simp: MAX_UPDATE_COUNT_def)
qed

text \<open>
  Claim C3, as amended. While a flush is in progress (and so has been requested), a
  watcher that is not pending is spliced in at the position found by scanning backward
  from the end of the queue, stopping at the flush cursor or at the first position whose
  id is not greater than the watcher's, whichever comes first. The position is past the
  cursor; everything from it on has a greater id; the entry before it has an id that is
  not greater unless that entry is the running watcher; when every entry past the cursor
  has a greater id the position is the one right after the cursor; the queue up to the
  cursor is unchanged. The part after the cursor stays in ascending order if it was, and
  so does the part from the cursor on when the new id is not below the running
  watcher's; when the new id is below the running watcher's, the part from the cursor on
  is not ascending afterwards. A flush loop that ends without an exception and without a
  runaway warning has run every watcher that was in the queue at or after its cursor.
\<close>

theorem queueWatcher_mid_flush:
  assumes "flushing st" and "waiting st" and "\<not> has st w" and "index st < length (queue st)"
  shows "(let q = queue st; i = index st; p = scan q i w (length q);
              q' = take p q @ [w] @ drop p q
          in queueWatcher n cfg bf beh w st
               = Some (None, st\<lparr>has := (has st)(w := True), queue := q'\<rparr>) \<and>
             i < p \<and> p \<le> length q \<and> q' ! p = w \<and>
             take (Suc i) q' = take (Suc i) q \<and>
             (\<forall>k. p \<le> k \<and> k < length q \<longrightarrow> w < q ! k) \<and>
             (Suc i < p \<longrightarrow> q ! (p - 1) \<le> w) \<and>
             ((\<forall>k. i < k \<and> k < length q \<longrightarrow> w < q ! k) \<longrightarrow> p = Suc i) \<and>
             (sorted (drop (Suc i) q) \<longrightarrow> sorted (drop (Suc i) q')) \<and>
             (sorted (drop i q) \<and> q ! i \<le> w \<longrightarrow> sorted (drop i q')) \<and>
             (w < q ! i \<longrightarrow> \<not> sorted (drop i q')) \<and>
             w \<in> set (drop (Suc i) q') \<and>
             (\<forall>m s1 s'. waiting s1 \<and> w \<in> set (drop (index s1) (queue s1)) \<and>
                flush_loop m cfg bf beh s1 = Some (None, s') \<and> warned s' = warned s1 \<longrightarrow>
                w \<in> set (drop (length (runs s1)) (runs s'))))"
proof -
  define q where "q = queue st"
  define i where "i = index st"
  define p where "p = scan q i w (length q)"
  define q' where "q' = take p q @ [w] @ drop p q"
  have il: "i < length q" using assms(4) by (simp add: q_def i_def)
  have e: "enqueue w st = q'"
    using assms(1) by (simp add: enqueue_def Let_def q'_def p_def q_def i_def)
  have qw: "queueWatcher n cfg bf beh w st
               = Some (None, st\<lparr>has := (has st)(w := True), queue := q'\<rparr>)"
    using assms(2,3) by (simp add: queueWatcher_waiting e)
  have a: "Suc i \<le> p"
    using scan_ge [of i "length q" q w] assms(4) by (simp add: p_def q_def i_def)
  have b: "p \<le> length q" unfolding p_def by (rule scan_le)
  have nth: "q' ! p = w" using b by (simp add: q'_def nth_append)
  have pre: "take (Suc i) q' = take (Suc i) q"
    unfolding q'_def using a b by (rule splice_prefix)
  have aft: "\<forall>k. p \<le> k \<and> k < length q \<longrightarrow> w < q ! k"
    unfolding p_def using scan_after by blast
  have bef: "Suc i < p \<longrightarrow> q ! (p - 1) \<le> w"
    unfolding p_def using scan_before by blast
  have nxt: "(\<forall>k. i < k \<and> k < length q \<longrightarrow> w < q ! k) \<longrightarrow> p = Suc i"
  proof
    assume g: "\<forall>k. i < k \<and> k < length q \<longrightarrow> w < q ! k"
    show "p = Suc i"
    proof (rule ccontr)
      assume "p \<noteq> Suc i"
      with a have lt: "Suc i < p" by simp
      with bef have "q ! (p - 1) \<le> w" by simp
      moreover from lt b have "i < p - 1 \<and> p - 1 < length q" by arith
      with g have "w < q ! (p - 1)" by blast
      ultimately show False by simp
    qed
  qed
  have srt: "sorted (drop (Suc i) q) \<longrightarrow> sorted (drop (Suc i) q')"
    using enqueue_sorted_tail [OF assms(1,4), of w] unfolding e by (simp add: q_def i_def)
  have tl: "set (drop (Suc i) q') = insert w (set (drop (Suc i) q))"
    using enqueue_tail_set [OF assms(4), of w] unfolding e by (simp add: q_def i_def)
  have mem: "w \<in> set (drop (Suc i) q')"
    using tl by simp
  have len: "length q' = Suc (length q)" using b by (simp add: q'_def)
  have qi: "q' ! i = q ! i"
  proof -
    have "q' ! i = take (Suc i) q' ! i" by simp
    also have "\<dots> = take (Suc i) q ! i" by (simp only: pre)
    also have "\<dots> = q ! i" by simp
    finally show ?thesis .
  qed
  have d': "drop i q' = q ! i # drop (Suc i) q'"
    using Cons_nth_drop_Suc [of i q'] il len qi by simp
  have d: "drop i q = q ! i # drop (Suc i) q"
    using Cons_nth_drop_Suc [of i q] il by simp
  have asc: "sorted (drop i q) \<and> q ! i \<le> w \<longrightarrow> sorted (drop i q')"
  proof
    assume h: "sorted (drop i q) \<and> q ! i \<le> w"
    then have s1: "sorted (drop (Suc i) q)" and s2: "\<forall>x\<in>set (drop (Suc i) q). q ! i \<le> x"
      unfolding d by simp_all
    from s1 srt have "sorted (drop (Suc i) q')" by simp
    moreover from s2 h tl have "\<forall>x\<in>set (drop (Suc i) q'). q ! i \<le> x" by simp
    ultimately show "sorted (drop i q')" unfolding d' by simp
  qed
  have nasc: "w < q ! i \<longrightarrow> \<not> sorted (drop i q')"
  proof
    assume lt: "w < q ! i"
    show "\<not> sorted (drop i q')"
    proof
      assume "sorted (drop i q')"
      then have "\<forall>x\<in>set (drop (Suc i) q'). q ! i \<le> x" unfolding d' by simp
      with mem have "q ! i \<le> w" by blast
      with lt show False by simp
    qed
  qed
  have run: "w \<in> set (drop (length (runs s1)) (runs s'))"
    if "waiting s1" "w \<in> set (drop (index s1) (queue s1))"
      "flush_loop m cfg bf beh s1 = Some (None, s')" "warned s' = warned s1" for m s1 s'
  proof -
    from flush_loop_runs_all [OF that(1,3)] that(4)
    have "runs s' = runs s1 @ drop (index s1) (queue s')"
      "set (drop (index s1) (queue s1)) \<subseteq> set (drop (index s1) (queue s'))"
      by auto
    with that(2) show ?thesis by auto
  qed
  have run': "\<forall>m s1 s'. waiting s1 \<and> w \<in> set (drop (index s1) (queue s1)) \<and>
                flush_loop m cfg bf beh s1 = Some (None, s') \<and> warned s' = warned s1 \<longrightarrow>
                w \<in> set (drop (length (runs s1)) (runs s'))"
    using run by blast
  have il': "i < p" using a by simp
  show ?thesis
    unfolding Let_def q_def [symmetric] i_def [symmetric] p_def [symmetric] q'_def [symmetric]
    using qw il' b nth pre aft bef nxt srt asc nasc mem run'
    by (intro conjI)
qed

lemma queued_reached:
  "run_effect 0 \<lparr>production = True, async = True\<rparr> (\<lambda>_. False) late3 [5, 1, 7] sched0
     = Some (None, queued)"
  by (simp add: queueWatcher.simps queued_def sched0_def enqueue_def Let_def fun_eq_iff)

lemma flush_queued:
  "map_option (\<lambda>r. (fst r, runs (snd r), updated_hooks (snd r)))
     (flushSchedulerQueue 5 \<lparr>production = True, async = True\<rparr> (\<lambda>_. False) late3 queued)
   = Some (None, [1, 5, 3, 7], [[1, 5, 3, 7]])"
  by (simp add: flushSchedulerQueue.simps flush_loop.simps queueWatcher.simps eval_nat_numeral
        queued_def sched0_def late3_def enqueue_def Let_def resetSchedulerState_def)

text \<open>
  Claim C3 as stated fails: watcher 3 is enqueued while watcher 5 runs. The scan stops
  at the cursor, whose id 5 is greater than 3 (position 0 holds id 1), and the flush
  runs 1, 5, 3, 7, which is not ascending.
\<close>

theorem mid_flush_order_counterexample:
  "run_effect 0 \<lparr>production = True, async = True\<rparr> (\<lambda>_. False) late3 [5, 1, 7] sched0
     = Some (None, queued) \<and>
   map_option (\<lambda>r. (fst r, runs (snd r), updated_hooks (snd r)))
     (flushSchedulerQueue 5 \<lparr>production = True, async = True\<rparr> (\<lambda>_. False) late3 queued)
     = Some (None, [1, 5, 3, 7], [[1, 5, 3, 7]]) \<and>
   \<not> sorted [1, 5, 3, 7 :: nat] \<and>
   flushing mid_flush \<and> \<not> has mid_flush 3 \<and> queue mid_flush = [1, 5, 7] \<and> index mid_flush = 1 \<and>
   map_option (\<lambda>r. queue (snd r))
     (queueWatcher 0 \<lparr>production = True, async = True\<rparr> (\<lambda>_. False) late3 3 mid_flush)
     = Some [1, 5, 3, 7] \<and>
   queue mid_flush ! 0 \<le> 3 \<and> \<not> queue mid_flush ! 1 \<le> 3"
proof -
  have a: "map_option (\<lambda>r. queue (snd r))
     (queueWatcher 0 \<lparr>production = True, async = True\<rparr> (\<lambda>_. False) late3 3 mid_flush)
     = Some [1, 5, 3, 7]"
    by (simp add: queueWatcher.simps mid_flush_def sched0_def enqueue_def Let_def eval_nat_numeral)
  have b: "flushing mid_flush" "\<not> has mid_flush 3" "queue mid_flush = [1, 5, 7]"
    "index mid_flush = 1"
    by (simp_all add: mid_flush_def sched0_def)
  show ?thesis
    using queued_reached flush_queued a b by simp
qed

theorem queueWatcher_mid_flush_witness:
  "flushing mid_flush \<and> waiting mid_flush \<and> \<not> has mid_flush 6 \<and>
   index mid_flush < length (queue mid_flush) \<and>
   scan (queue mid_flush) (index mid_flush) 6 (length (queue mid_flush)) = 2 \<and>
   queueWatcher 0 \<lparr>production = True, async = True\<rparr> (\<lambda>_. False) late3 6 mid_flush
     = Some (None, mid_flush\<lparr>has := (has mid_flush)(6 := True), queue := [1, 5, 6, 7]\<rparr>) \<and>
   sorted (drop (Suc (index mid_flush)) [1, 5, 6, 7 :: nat])"
proof -
  have h: "flushing mid_flush" "waiting mid_flush" "\<not> has mid_flush 6"
    "index mid_flush < length (queue mid_flush)"
    by (simp_all add: mid_flush_def sched0_def)
  have q: "queue mid_flush = [1, 5, 7]" "index mid_flush = 1"
    by (simp_all add: mid_flush_def sched0_def)
  have s: "scan (queue mid_flush) (index mid_flush) 6 (length (queue mid_flush)) = 2"
    unfolding q by (simp add: eval_nat_numeral)
  have t: "take 2 (queue mid_flush) @ [6] @ drop 2 (queue mid_flush) = [1, 5, 6, 7]"
    unfolding q by simp
  note th = queueWatcher_mid_flush [OF h, of 0 "\<lparr>production = True, async = True\<rparr>"
      "\<lambda>_. False" late3, unfolded Let_def s t]
  from th have "queueWatcher 0 \<lparr>production = True, async = True\<rparr> (\<lambda>_. False) late3 6 mid_flush
     = Some (None, mid_flush\<lparr>has := (has mid_flush)(6 := True), queue := [1, 5, 6, 7]\<rparr>)"
    by blast
  then show ?thesis
    using h s unfolding q(2) by simp
qed

theorem runaway_update_breaker_witness:
  "\<not> production \<lparr>production = False, async = False\<rparr> \<and> waiting loop_state \<and>
   index loop_state < length (queue loop_state) \<and>
   queueWatcher 102 \<lparr>production = False, async = False\<rparr> (\<lambda>_. False) (\<lambda>_. ([4], None)) 4 sched0
     = flushSchedulerQueue 102 \<lparr>production = False, async = False\<rparr> (\<lambda>_. False)
         (\<lambda>_. ([4], None)) loop_state \<and>
   (\<exists>s'. flushSchedulerQueue 102 \<lparr>production = False, async = False\<rparr> (\<lambda>_. False)
           (\<lambda>_. ([4], None)) loop_state = Some (None, s') \<and>
         runs s' = replicate 101 4 \<and> warned s' = [4] \<and> queue s' = [] \<and> \<not> flushing s')"
proof -
  have h: "\<not> production \<lparr>production = False, async = False\<rparr>" "waiting loop_state"
    "index loop_state < length (queue loop_state)"
    "snd ((\<lambda>_. ([4], None)) (length (runs loop_state))) = (None :: jsval option)"
    by (simp_all add: loop_state_def sched0_def)
  have q: "queue loop_state = [4]" "circular loop_state 4 = 0" "runs loop_state = []"
    "warned loop_state = []"
    by (simp_all add: loop_state_def sched0_def)
  have d: "queueWatcher 102 \<lparr>production = False, async = False\<rparr> (\<lambda>_. False) (\<lambda>_. ([4], None)) 4 sched0
     = flushSchedulerQueue 102 \<lparr>production = False, async = False\<rparr> (\<lambda>_. False)
         (\<lambda>_. ([4], None)) loop_state"
    by (subst queueWatcher.simps) (simp add: loop_state_def sched0_def enqueue_def Let_def)
  note th = runaway_update_breaker [OF h, of "\<lambda>_. False" 0, unfolded Let_def]
  from th have "\<forall>v s0 m. queue s0 = [v] \<and> circular s0 v = 0 \<and> waiting s0 \<and> 101 < m \<longrightarrow>
                (\<exists>s'. flushSchedulerQueue m \<lparr>production = False, async = False\<rparr> (\<lambda>_. False)
                        (\<lambda>_. ([v], None)) s0 = Some (None, s') \<and>
                      runs s' = runs s0 @ replicate 101 v \<and>
                      warned s' = warned s0 @ [v] \<and>
                      queue s' = [] \<and> \<not> flushing s' \<and> \<not> waiting s')"
    by blast
  from this [rule_format, of loop_state 4 102] q h(2)
  have "\<exists>s'. flushSchedulerQueue 102 \<lparr>production = False, async = False\<rparr> (\<lambda>_. False)
           (\<lambda>_. ([4], None)) loop_state = Some (None, s') \<and>
         runs s' = replicate 101 4 \<and> warned s' = [4] \<and> queue s' = [] \<and> \<not> flushing s'"
    by auto
  then show ?thesis using h d by blast
qed

end
